theory Spec2Isabelle
  imports Complex_Main "HOL-Library.Monad_Syntax"
begin

section \<open>The probability engine of \<open>main.cc\<close>\<close>

text \<open>
  \<open>computeOptions\<close> (main.cc, lines 30 to 154) is the whole engine: it allocates five memo
  tables, defines the closures \<open>computeDealer\<close>, \<open>standProbs\<close> and \<open>optimal\<close> over them and
  assembles an \<open>Options\<close> record. The closures capture the tables by reference, so the
  model threads one record of tables through every call. A C++ \<open>operator[]\<close> outside the
  vector has no defined behaviour; the model makes it the value \<open>None\<close>, and every
  function returns an option.

  C++ \<open>int\<close> is modelled by \<open>int\<close>: no statement below depends on a sum of totals that
  could leave the machine range.
\<close>

subsection \<open>Doubles\<close>

text \<open>
  A \<open>double\<close> that the engine holds is a rational number. Each arithmetic operation of
  the source is the exact operation followed by a rounding function \<open>rnd\<close>, which every
  definition takes as its first argument. Two roundings are defined: \<open>exact\<close> (no
  rounding), which gives the arithmetic of the rationals, and \<open>binary64\<close>, the rounding
  of IEEE 754 double precision. The constants of the source (\<open>-1.0\<close>, \<open>-0.5\<close>, \<open>0.0\<close>,
  \<open>1.0\<close>, \<open>double(MAX_CARD)\<close>) are representable and stand for themselves; comparisons
  are exact. A statement with a free \<open>rnd\<close> holds for every rounding function.
\<close>

type_synonym dbl = rat
type_synonym rounding = "rat \<Rightarrow> rat"

definition exact :: rounding where
  "exact x = x"

text \<open>
  \<open>binary64\<close> rounds to the nearest number with a significand of 53 bits, ties to the
  even significand. This is round-to-nearest of IEEE 754 double precision wherever the
  result neither overflows nor is subnormal; the values of the engine, sums and tenths of
  numbers between 0 and 10, are far inside that range. \<open>ilog2 x\<close> is the exponent \<open>e\<close>
  with \<open>pow2 e \<le> x < pow2 (e + 1)\<close>, found from the bit length of the integer part of
  \<open>x\<close> or of \<open>1 / x\<close>.
\<close>

fun bitlen_nat :: "nat \<Rightarrow> nat" where
  "bitlen_nat n = (if n = 0 then 0 else Suc (bitlen_nat (n div 2)))"

declare bitlen_nat.simps [simp del]

definition round_half_even :: "rat \<Rightarrow> int" where
  "round_half_even q = (let f = \<lfloor>q\<rfloor>; r = q - of_int f in
     if r < 1 / 2 then f else if r > 1 / 2 then f + 1 else if even f then f else f + 1)"

definition ilog2 :: "rat \<Rightarrow> int" where
  "ilog2 x = (if x \<ge> 1 then int (bitlen_nat (nat \<lfloor>x\<rfloor>)) - 1
     else let y = 1 / x; k = int (bitlen_nat (nat \<lfloor>y\<rfloor>)) - 1 in
       if y = 2 ^ nat k then - k else - (k + 1))"

definition pow2 :: "int \<Rightarrow> rat" where
  "pow2 e = (if e \<ge> 0 then 2 ^ nat e else 1 / 2 ^ nat (- e))"

definition binary64 :: rounding where
  "binary64 x = (if x = 0 then 0 else
     let a = \<bar>x\<bar>; u = pow2 (ilog2 a - 52) in
     (if x < 0 then - 1 else 1) * of_int (round_half_even (a / u)) * u)"

definition fadd :: "rounding \<Rightarrow> dbl \<Rightarrow> dbl \<Rightarrow> dbl" where
  "fadd rnd a b = rnd (a + b)"

definition fsub :: "rounding \<Rightarrow> dbl \<Rightarrow> dbl \<Rightarrow> dbl" where
  "fsub rnd a b = rnd (a - b)"

definition fdiv :: "rounding \<Rightarrow> dbl \<Rightarrow> dbl \<Rightarrow> dbl" where
  "fdiv rnd a b = rnd (a / b)"

text \<open>
  Every loop of the engine accumulates from \<open>0.0\<close> with \<open>+=\<close> and divides the
  accumulator by \<open>double(MAX_CARD)\<close> afterwards: \<open>fsum\<close> is that accumulation over the
  list of summands, \<open>fmean10\<close> the mean it yields.
\<close>

definition fsum :: "rounding \<Rightarrow> dbl list \<Rightarrow> dbl" where
  "fsum rnd xs = foldl (fadd rnd) 0 xs"

definition fmean10 :: "rounding \<Rightarrow> dbl list \<Rightarrow> dbl" where
  "fmean10 rnd xs = fdiv rnd (fsum rnd xs) 10"

subsection \<open>Constants, the report and the tables\<close>

abbreviation TARGET :: int where "TARGET \<equiv> 21"
abbreviation MAX_CARD :: int where "MAX_CARD \<equiv> 10"
abbreviation MAX_SUM :: int where "MAX_SUM \<equiv> TARGET + MAX_CARD"

record Options =
  standWin :: dbl
  standLoss :: dbl
  hitWin :: dbl
  hitLoss :: dbl
  optWin :: dbl
  optLoss :: dbl
  bestAction :: string

text \<open>
  The five vectors of \<open>computeOptions\<close>. The field \<open>trace\<close> is not in the source: it
  records the index of every element access, in order, so that statements about which
  indices the engine uses can be made.
\<close>

datatype access = DealerIdx int int | MemoIdx int

record tables =
  dealerBust :: "dbl list list"
  dealerLess :: "dbl list list"
  dealerEqual :: "dbl list list"
  memoWin :: "dbl list"
  memoLoss :: "dbl list"
  trace :: "access list"

definition init_tables :: tables where
  "init_tables =
     \<lparr>dealerBust = replicate (nat (MAX_SUM + 1)) (replicate (nat (TARGET + 1)) (- 1)),
      dealerLess = replicate (nat (MAX_SUM + 1)) (replicate (nat (TARGET + 1)) (- 1)),
      dealerEqual = replicate (nat (MAX_SUM + 1)) (replicate (nat (TARGET + 1)) (- 1)),
      memoWin = replicate (nat (MAX_SUM + 1)) (- 1),
      memoLoss = replicate (nat (MAX_SUM + 1)) (- 1),
      trace = []\<rparr>"

text \<open>Element access: inside the vector it reads or writes and logs the index, outside it fails.\<close>

definition in2 :: "dbl list list \<Rightarrow> int \<Rightarrow> int \<Rightarrow> bool" where
  "in2 t i j \<longleftrightarrow> 0 \<le> i \<and> nat i < length t \<and> 0 \<le> j \<and> nat j < length (t ! nat i)"

definition in1 :: "dbl list \<Rightarrow> int \<Rightarrow> bool" where
  "in1 t i \<longleftrightarrow> 0 \<le> i \<and> nat i < length t"

definition upd2 :: "dbl list list \<Rightarrow> int \<Rightarrow> int \<Rightarrow> dbl \<Rightarrow> dbl list list" where
  "upd2 t i j x = t[nat i := (t ! nat i)[nat j := x]]"

definition touch2 :: "int \<Rightarrow> int \<Rightarrow> tables \<Rightarrow> tables" where
  "touch2 i j st = st\<lparr>trace := trace st @ [DealerIdx i j]\<rparr>"

definition touch1 :: "int \<Rightarrow> tables \<Rightarrow> tables" where
  "touch1 i st = st\<lparr>trace := trace st @ [MemoIdx i]\<rparr>"

definition rd2 :: "(tables \<Rightarrow> dbl list list) \<Rightarrow> int \<Rightarrow> int \<Rightarrow> tables \<Rightarrow> (dbl \<times> tables) option" where
  "rd2 tab i j st =
     (if in2 (tab st) i j then Some (tab st ! nat i ! nat j, touch2 i j st) else None)"

definition rd1 :: "(tables \<Rightarrow> dbl list) \<Rightarrow> int \<Rightarrow> tables \<Rightarrow> (dbl \<times> tables) option" where
  "rd1 tab i st = (if in1 (tab st) i then Some (tab st ! nat i, touch1 i st) else None)"

definition setBust :: "int \<Rightarrow> int \<Rightarrow> dbl \<Rightarrow> tables \<Rightarrow> tables option" where
  "setBust i j x st =
     (if in2 (dealerBust st) i j
      then Some (touch2 i j (st\<lparr>dealerBust := upd2 (dealerBust st) i j x\<rparr>)) else None)"

definition setLess :: "int \<Rightarrow> int \<Rightarrow> dbl \<Rightarrow> tables \<Rightarrow> tables option" where
  "setLess i j x st =
     (if in2 (dealerLess st) i j
      then Some (touch2 i j (st\<lparr>dealerLess := upd2 (dealerLess st) i j x\<rparr>)) else None)"

definition setEqual :: "int \<Rightarrow> int \<Rightarrow> dbl \<Rightarrow> tables \<Rightarrow> tables option" where
  "setEqual i j x st =
     (if in2 (dealerEqual st) i j
      then Some (touch2 i j (st\<lparr>dealerEqual := upd2 (dealerEqual st) i j x\<rparr>)) else None)"

definition setMemoWin :: "int \<Rightarrow> dbl \<Rightarrow> tables \<Rightarrow> tables option" where
  "setMemoWin i x st =
     (if in1 (memoWin st) i
      then Some (touch1 i (st\<lparr>memoWin := (memoWin st)[nat i := x]\<rparr>)) else None)"

definition setMemoLoss :: "int \<Rightarrow> dbl \<Rightarrow> tables \<Rightarrow> tables option" where
  "setMemoLoss i x st =
     (if in1 (memoLoss st) i
      then Some (touch1 i (st\<lparr>memoLoss := (memoLoss st)[nat i := x]\<rparr>)) else None)"

subsection \<open>Loops\<close>

text \<open>
  \<open>for (int v = 1; v <= MAX_CARD; ++v)\<close> runs its body for the values of the list
  \<open>[1..MAX_CARD]\<close> in order, passing on the accumulators and the tables, and stops at the
  first failing access.
\<close>

fun loopM :: "(int \<Rightarrow> 'a \<Rightarrow> tables \<Rightarrow> ('a \<times> tables) option) \<Rightarrow> int list \<Rightarrow> 'a \<Rightarrow> tables
    \<Rightarrow> ('a \<times> tables) option" where
  "loopM body [] acc st = Some (acc, st)"
| "loopM body (v # vs) acc st =
     (case body v acc st of None \<Rightarrow> None | Some (acc', st') \<Rightarrow> loopM body vs acc' st')"

lemma loopM_cong [fundef_cong]:
  "vs = ws \<Longrightarrow> acc = acc' \<Longrightarrow> st = st' \<Longrightarrow>
   (\<And>v a s. v \<in> set ws \<Longrightarrow> body v a s = body' v a s) \<Longrightarrow>
   loopM body vs acc st = loopM body' ws acc' st'"
proof (induction ws arbitrary: vs acc acc' st st')
  case Nil
  then show ?case by simp
next
  case (Cons w ws)
  then show ?case by (auto split: option.splits)
qed

subsection \<open>computeDealer (lines 43 to 75)\<close>

function computeDealer :: "rounding \<Rightarrow> int \<Rightarrow> int \<Rightarrow> tables \<Rightarrow> tables option" where
  "computeDealer rnd s pt st =
     (if s > MAX_SUM then Some st
      else do {
        (b, st1) \<leftarrow> rd2 dealerBust s pt st;
        if b \<ge> - (1 / 2) then Some st1
        else if s > TARGET then do {
          st2 \<leftarrow> setBust s pt 1 st1;
          st3 \<leftarrow> setLess s pt 0 st2;
          setEqual s pt 0 st3 }
        else if s \<ge> 17 then do {
          st2 \<leftarrow> setBust s pt 0 st1;
          st3 \<leftarrow> setLess s pt (if s < pt then 1 else 0) st2;
          setEqual s pt (if s = pt then 1 else 0) st3 }
        else do {
          ((accBust, accLess, accEqual), st2) \<leftarrow>
            loopM (\<lambda>v (accBust, accLess, accEqual) st.
                let ns = s + v in
                if ns > MAX_SUM then Some ((fadd rnd accBust 1, accLess, accEqual), st)
                else do {
                  (b0, sa) \<leftarrow> rd2 dealerBust ns pt st;
                  sb \<leftarrow> (if b0 < - (1 / 2) then computeDealer rnd ns pt sa else Some sa);
                  (b, sc) \<leftarrow> rd2 dealerBust ns pt sb;
                  (l, sd) \<leftarrow> rd2 dealerLess ns pt sc;
                  (e, se) \<leftarrow> rd2 dealerEqual ns pt sd;
                  Some ((fadd rnd accBust b, fadd rnd accLess l, fadd rnd accEqual e), se) })
              [1..MAX_CARD] (0, 0, 0) st1;
          st3 \<leftarrow> setBust s pt (fdiv rnd accBust 10) st2;
          st4 \<leftarrow> setLess s pt (fdiv rnd accLess 10) st3;
          setEqual s pt (fdiv rnd accEqual 10) st4 }
      })"
  by pat_completeness auto
termination
  apply (relation "measure (\<lambda>(rnd, s, pt, st). nat (MAX_SUM + 1 - s))")
   apply auto
  done

declare computeDealer.simps [simp del]

subsection \<open>standProbs (lines 77 to 96)\<close>

text \<open>
  The closure reads \<open>dealerBust[start][s]\<close> at lines 85, 86 and 87 and
  \<open>dealerLess[start][s]\<close> at lines 87 and 89; each read is one access of the model.
\<close>

definition standProbs :: "rounding \<Rightarrow> int \<Rightarrow> int \<Rightarrow> tables \<Rightarrow> ((dbl \<times> dbl) \<times> tables) option" where
  "standProbs rnd dealer_upcard s st =
     (if s > TARGET then Some ((0, 1), st)
      else do {
        ((win, loss), st1) \<leftarrow>
          loopM (\<lambda>hole (win, loss) st.
              let start = dealer_upcard + hole in
              if start > MAX_SUM then Some ((fadd rnd win 1, loss), st)
              else do {
                (b0, sa) \<leftarrow> rd2 dealerBust start s st;
                sb \<leftarrow> (if b0 < - (1 / 2) then computeDealer rnd start s sa else Some sa);
                (b, sc) \<leftarrow> rd2 dealerBust start s sb;
                (b', sd) \<leftarrow> rd2 dealerBust start s sc;
                (l', se) \<leftarrow> rd2 dealerLess start s sd;
                (e', sf) \<leftarrow> rd2 dealerEqual start s se;
                let l = fsub rnd 1 (fadd rnd (fadd rnd b' l') e');
                (l2, sg) \<leftarrow> rd2 dealerLess start s sf;
                Some ((fadd rnd win (fadd rnd b l2), fadd rnd loss l), sg) })
            [1..MAX_CARD] (0, 0) st;
        Some ((fdiv rnd win 10, fdiv rnd loss 10), st1) })"

subsection \<open>optimal (lines 102 to 126)\<close>

text \<open>
  \<open>memoStore\<close> is the guarded pair of assignments
  \<open>if (s <= MAX_SUM) { memoWin[s] = ...; memoLoss[s] = ...; }\<close> of lines 120 and 123.
\<close>

definition memoStore :: "int \<Rightarrow> dbl \<Rightarrow> dbl \<Rightarrow> tables \<Rightarrow> tables option" where
  "memoStore s w l st =
     (if s \<le> MAX_SUM then do { sa \<leftarrow> setMemoWin s w st; setMemoLoss s l sa } else Some st)"

function optimal :: "rounding \<Rightarrow> int \<Rightarrow> int \<Rightarrow> tables \<Rightarrow> ((dbl \<times> dbl) \<times> tables) option" where
  "optimal rnd dealer_upcard s st =
     (if s > TARGET then Some ((0, 1), st)
      else do {
        (cached, st1) \<leftarrow>
          (if s \<le> MAX_SUM
           then do { (w, sa) \<leftarrow> rd1 memoWin s st; Some (w \<ge> - (1 / 2), sa) }
           else Some (False, st));
        if cached then do {
          (w, sa) \<leftarrow> rd1 memoWin s st1;
          (l, sb) \<leftarrow> rd1 memoLoss s sa;
          Some ((w, l), sb) }
        else do {
          (stand, st2) \<leftarrow> standProbs rnd dealer_upcard s st1;
          ((hitW, hitL), st3) \<leftarrow>
            loopM (\<lambda>v (hitW, hitL) st. do {
                let ns = s + v;
                (res, sa) \<leftarrow> optimal rnd dealer_upcard ns st;
                Some ((fadd rnd hitW (fst res), fadd rnd hitL (snd res)), sa) })
              [1..MAX_CARD] (0, 0) st2;
          let hitW = fdiv rnd hitW 10;
          let hitL = fdiv rnd hitL 10;
          if fst stand \<ge> hitW then do {
            st4 \<leftarrow> memoStore s (fst stand) (snd stand) st3;
            Some ((fst stand, snd stand), st4) }
          else do {
            st4 \<leftarrow> memoStore s hitW hitL st3;
            Some ((hitW, hitL), st4) } } })"
  by pat_completeness auto
termination
  apply (relation "measure (\<lambda>(rnd, du, s, st). nat (TARGET + 1 - s))")
   apply auto
  done

declare optimal.simps [simp del]

subsection \<open>computeOptions (lines 30 to 154)\<close>

text \<open>
  \<open>Options out{}\<close> value-initialises the report: six zero doubles and the empty string.
  \<open>computeOptions_traced\<close> returns, with the report, the indices accessed on the way;
  \<open>computeOptions\<close> is the report alone.
\<close>

definition computeOptions_traced :: "rounding \<Rightarrow> int \<Rightarrow> int \<Rightarrow> (Options \<times> access list) option" where
  "computeOptions_traced rnd hand_score dealer_upcard =
     (let out = \<lparr>standWin = 0, standLoss = 0, hitWin = 0, hitLoss = 0, optWin = 0, optLoss = 0,
                 bestAction = []\<rparr> in
      if dealer_upcard < 1 \<or> dealer_upcard > 10 then Some (out, [])
      else do {
        (opt, st1) \<leftarrow> optimal rnd dealer_upcard hand_score init_tables;
        let out = out\<lparr>optWin := fst opt\<rparr>;
        let out = out\<lparr>optLoss := snd opt\<rparr>;
        let out = out\<lparr>bestAction := (if optWin out = - 1 then ''bust'' else ''optimal'')\<rparr>;
        (sp, st2) \<leftarrow> standProbs rnd dealer_upcard hand_score st1;
        let out = out\<lparr>standWin := fst sp\<rparr>;
        let out = out\<lparr>standLoss := snd sp\<rparr>;
        ((hitW, hitL), st3) \<leftarrow>
          loopM (\<lambda>v (hitW, hitL) st. do {
              (r, sa) \<leftarrow> optimal rnd dealer_upcard (hand_score + v) st;
              Some ((fadd rnd hitW (fst r), fadd rnd hitL (snd r)), sa) })
            [1..MAX_CARD] (0, 0) st2;
        let out = out\<lparr>hitWin := fdiv rnd hitW 10\<rparr>;
        let out = out\<lparr>hitLoss := fdiv rnd hitL 10\<rparr>;
        let out = (if standWin out > hitWin out then out\<lparr>bestAction := ''stand''\<rparr>
                   else if hitWin out > standWin out then out\<lparr>bestAction := ''hit''\<rparr>
                   else out\<lparr>bestAction := ''equal''\<rparr>);
        Some (out, trace st3) })"

definition computeOptions :: "rounding \<Rightarrow> int \<Rightarrow> int \<Rightarrow> Options option" where
  "computeOptions rnd hand_score dealer_upcard =
     map_option fst (computeOptions_traced rnd hand_score dealer_upcard)"

section \<open>What the tables memoise\<close>

text \<open>
  The value a closure returns, or leaves in the tables, when it is called on the tables
  as \<open>computeOptions\<close> allocates them. \<open>dealerOutcome\<close> reads the three entries that
  \<open>computeDealer\<close> leaves at its arguments, as its callers do (lines 67 to 69).
  \<open>hitOutcome\<close> is the mean, over the ten cards, of \<open>optimal\<close> at the next total.
  Lemmas \<open>computeDealer_memo_transparent\<close>, \<open>standProbs_memo_transparent\<close> and
  \<open>optimal_memo_transparent\<close> below show that a call on tables already filled by earlier
  calls returns these same values.
\<close>

definition dealerOutcome :: "rounding \<Rightarrow> int \<Rightarrow> int \<Rightarrow> (dbl \<times> dbl \<times> dbl) option" where
  "dealerOutcome rnd dealerTotal playerTotal = do {
     st \<leftarrow> computeDealer rnd dealerTotal playerTotal init_tables;
     (b, st1) \<leftarrow> rd2 dealerBust dealerTotal playerTotal st;
     (l, st2) \<leftarrow> rd2 dealerLess dealerTotal playerTotal st1;
     (e, st3) \<leftarrow> rd2 dealerEqual dealerTotal playerTotal st2;
     Some (b, l, e) }"

definition standOutcome :: "rounding \<Rightarrow> int \<Rightarrow> int \<Rightarrow> (dbl \<times> dbl) option" where
  "standOutcome rnd dealerUpcard playerTotal =
     map_option fst (standProbs rnd dealerUpcard playerTotal init_tables)"

definition optimalOutcome :: "rounding \<Rightarrow> int \<Rightarrow> int \<Rightarrow> (dbl \<times> dbl) option" where
  "optimalOutcome rnd dealerUpcard playerTotal =
     map_option fst (optimal rnd dealerUpcard playerTotal init_tables)"

definition hitOutcome :: "rounding \<Rightarrow> int \<Rightarrow> int \<Rightarrow> (dbl \<times> dbl) option" where
  "hitOutcome rnd dealerUpcard playerTotal =
     map_option (\<lambda>rs. (fmean10 rnd (map fst rs), fmean10 rnd (map snd rs)))
       (those (map (\<lambda>v. optimalOutcome rnd dealerUpcard (playerTotal + v)) [1..MAX_CARD]))"

section \<open>The recursion of the design\<close>

text \<open>
  Second definitions, written from the design (sections 4.1 to 4.4) and without tables,
  against which the memoised code is compared: the dealer's outcome distribution, the
  stand evaluation, the optimal policy, the one-ply hit value and the report. They use
  the arithmetic of the code, operation by operation.
\<close>

function spec_dealerOutcome :: "rounding \<Rightarrow> int \<Rightarrow> int \<Rightarrow> dbl \<times> dbl \<times> dbl" where
  "spec_dealerOutcome rnd s pt =
     (if s > 21 then (1, 0, 0)
      else if s \<ge> 17 then (0, if s < pt then 1 else 0, if s = pt then 1 else 0)
      else (fmean10 rnd (map (\<lambda>v. fst (spec_dealerOutcome rnd (s + v) pt)) [1..10]),
            fmean10 rnd (map (\<lambda>v. fst (snd (spec_dealerOutcome rnd (s + v) pt))) [1..10]),
            fmean10 rnd (map (\<lambda>v. snd (snd (spec_dealerOutcome rnd (s + v) pt))) [1..10])))"
  by pat_completeness auto
termination
  apply (relation "measure (\<lambda>(rnd, s, pt). nat (17 - s))")
   apply auto
  done

declare spec_dealerOutcome.simps [simp del]

definition spec_standOutcome :: "rounding \<Rightarrow> int \<Rightarrow> int \<Rightarrow> dbl \<times> dbl" where
  "spec_standOutcome rnd du pt =
     (if pt > 21 then (0, 1)
      else (fmean10 rnd (map (\<lambda>h. case spec_dealerOutcome rnd (du + h) pt of
                                    (b, l, e) \<Rightarrow> fadd rnd b l) [1..10]),
            fmean10 rnd (map (\<lambda>h. case spec_dealerOutcome rnd (du + h) pt of
                                    (b, l, e) \<Rightarrow> fsub rnd 1 (fadd rnd (fadd rnd b l) e)) [1..10])))"

function spec_optimal :: "rounding \<Rightarrow> int \<Rightarrow> int \<Rightarrow> dbl \<times> dbl" where
  "spec_optimal rnd du s =
     (if s > 21 then (0, 1)
      else let stand = spec_standOutcome rnd du s;
               hitW = fmean10 rnd (map (\<lambda>v. fst (spec_optimal rnd du (s + v))) [1..10]);
               hitL = fmean10 rnd (map (\<lambda>v. snd (spec_optimal rnd du (s + v))) [1..10])
           in if fst stand \<ge> hitW then stand else (hitW, hitL))"
  by pat_completeness auto
termination
  apply (relation "measure (\<lambda>(rnd, du, s). nat (22 - s))")
   apply auto
  done

declare spec_optimal.simps [simp del]

definition spec_hit :: "rounding \<Rightarrow> int \<Rightarrow> int \<Rightarrow> dbl \<times> dbl" where
  "spec_hit rnd du s =
     (fmean10 rnd (map (\<lambda>v. fst (spec_optimal rnd du (s + v))) [1..10]),
      fmean10 rnd (map (\<lambda>v. snd (spec_optimal rnd du (s + v))) [1..10]))"

definition label :: "dbl \<Rightarrow> dbl \<Rightarrow> string" where
  "label sw hw = (if sw > hw then ''stand'' else if hw > sw then ''hit'' else ''equal'')"

definition spec_report :: "rounding \<Rightarrow> int \<Rightarrow> int \<Rightarrow> Options" where
  "spec_report rnd hs du =
     \<lparr>standWin = fst (spec_standOutcome rnd du hs), standLoss = snd (spec_standOutcome rnd du hs),
      hitWin = fst (spec_hit rnd du hs), hitLoss = snd (spec_hit rnd du hs),
      optWin = fst (spec_optimal rnd du hs), optLoss = snd (spec_optimal rnd du hs),
      bestAction = label (fst (spec_standOutcome rnd du hs)) (fst (spec_hit rnd du hs))\<rparr>"

section \<open>Invariants of the tables\<close>

text \<open>
  \<open>shaped\<close>: the vectors have the sizes they were allocated with. \<open>dinv\<close>: an entry of
  the dealer tables that is marked as computed (its bust component is at least \<open>-0.5\<close>)
  holds the value of the recursion; \<open>minv\<close>: the same for the memo of \<open>optimal\<close>.
  \<open>frame\<close> and \<open>tframe\<close> bound what a call adds to the trace (and \<open>frame\<close> says
  that it leaves the memo of \<open>optimal\<close> alone); \<open>dacc\<close>, \<open>sacc\<close> and \<open>oacc\<close>
  are the indices a call of \<open>computeDealer\<close>, \<open>standProbs\<close> and \<open>optimal\<close> may touch.
\<close>

definition shaped2 :: "dbl list list \<Rightarrow> bool" where
  "shaped2 t \<longleftrightarrow> length t = 32 \<and> (\<forall>i < 32. length (t ! i) = 22)"

definition shaped :: "tables \<Rightarrow> bool" where
  "shaped st \<longleftrightarrow> shaped2 (dealerBust st) \<and> shaped2 (dealerLess st) \<and> shaped2 (dealerEqual st) \<and>
     length (memoWin st) = 32 \<and> length (memoLoss st) = 32"

definition inb :: "int \<Rightarrow> int \<Rightarrow> bool" where
  "inb s pt \<longleftrightarrow> 0 \<le> s \<and> s \<le> 31 \<and> 0 \<le> pt \<and> pt \<le> 21"

definition dealerAt :: "tables \<Rightarrow> int \<Rightarrow> int \<Rightarrow> dbl \<times> dbl \<times> dbl" where
  "dealerAt st s pt =
     (dealerBust st ! nat s ! nat pt, dealerLess st ! nat s ! nat pt, dealerEqual st ! nat s ! nat pt)"

definition memoAt :: "tables \<Rightarrow> int \<Rightarrow> dbl \<times> dbl" where
  "memoAt st s = (memoWin st ! nat s, memoLoss st ! nat s)"

definition dinv :: "rounding \<Rightarrow> tables \<Rightarrow> bool" where
  "dinv rnd st \<longleftrightarrow> shaped st \<and>
     (\<forall>s pt. inb s pt \<longrightarrow> fst (dealerAt st s pt) \<ge> - (1 / 2) \<longrightarrow>
        dealerAt st s pt = spec_dealerOutcome rnd s pt)"

definition minv :: "rounding \<Rightarrow> int \<Rightarrow> tables \<Rightarrow> bool" where
  "minv rnd du st \<longleftrightarrow>
     (\<forall>s. 0 \<le> s \<and> s \<le> 31 \<longrightarrow> fst (memoAt st s) \<ge> - (1 / 2) \<longrightarrow> memoAt st s = spec_optimal rnd du s)"

definition tables_inv :: "rounding \<Rightarrow> int \<Rightarrow> tables \<Rightarrow> bool" where
  "tables_inv rnd du st \<longleftrightarrow> dinv rnd st \<and> minv rnd du st"

definition frame :: "access set \<Rightarrow> tables \<Rightarrow> tables \<Rightarrow> bool" where
  "frame A st st' \<longleftrightarrow> memoWin st' = memoWin st \<and> memoLoss st' = memoLoss st \<and>
     set (trace st') \<subseteq> set (trace st) \<union> A"

definition tframe :: "access set \<Rightarrow> tables \<Rightarrow> tables \<Rightarrow> bool" where
  "tframe A st st' \<longleftrightarrow> set (trace st') \<subseteq> set (trace st) \<union> A"

definition dacc :: "int \<Rightarrow> int \<Rightarrow> access set" where
  "dacc s pt = {DealerIdx i pt | i. s \<le> i \<and> (i \<le> 26 \<or> i = s)}"

definition sacc :: "int \<Rightarrow> int \<Rightarrow> access set" where
  "sacc du s = {DealerIdx i s | i. du + 1 \<le> i \<and> i \<le> 26}"

definition oacc :: "int \<Rightarrow> int \<Rightarrow> access set" where
  "oacc du s = {MemoIdx i | i. s \<le> i \<and> i \<le> 21} \<union>
     {DealerIdx i j | i j. du + 1 \<le> i \<and> i \<le> 26 \<and> s \<le> j \<and> j \<le> 21}"

text \<open>
  The loop bodies and the triple store by name, and the accumulator updates as functions
  of the summand.
\<close>

definition store3 :: "int \<Rightarrow> int \<Rightarrow> dbl \<times> dbl \<times> dbl \<Rightarrow> tables \<Rightarrow> tables option" where
  "store3 s pt t st =
     setBust s pt (fst t) st \<bind> (\<lambda>st2. setLess s pt (fst (snd t)) st2 \<bind> setEqual s pt (snd (snd t)))"

definition add3 :: "rounding \<Rightarrow> dbl \<times> dbl \<times> dbl \<Rightarrow> dbl \<times> dbl \<times> dbl \<Rightarrow> dbl \<times> dbl \<times> dbl" where
  "add3 rnd a x = (fadd rnd (fst a) (fst x), fadd rnd (fst (snd a)) (fst (snd x)),
     fadd rnd (snd (snd a)) (snd (snd x)))"

definition add2 :: "rounding \<Rightarrow> dbl \<times> dbl \<Rightarrow> dbl \<times> dbl \<Rightarrow> dbl \<times> dbl" where
  "add2 rnd a x = (fadd rnd (fst a) (fst x), fadd rnd (snd a) (snd x))"

definition stand_contrib :: "rounding \<Rightarrow> dbl \<times> dbl \<times> dbl \<Rightarrow> dbl \<times> dbl" where
  "stand_contrib rnd t =
     (case t of (b, l, e) \<Rightarrow> (fadd rnd b l, fsub rnd 1 (fadd rnd (fadd rnd b l) e)))"

definition dealer_step ::
  "rounding \<Rightarrow> int \<Rightarrow> int \<Rightarrow> int \<Rightarrow> dbl \<times> dbl \<times> dbl \<Rightarrow> tables \<Rightarrow> ((dbl \<times> dbl \<times> dbl) \<times> tables) option" where
  "dealer_step rnd s pt v acc st =
     (if s + v > MAX_SUM then Some ((fadd rnd (fst acc) 1, fst (snd acc), snd (snd acc)), st)
      else rd2 dealerBust (s + v) pt st \<bind> (\<lambda>(b0, sa).
           (if b0 < - (1 / 2) then computeDealer rnd (s + v) pt sa else Some sa) \<bind> (\<lambda>sb.
           rd2 dealerBust (s + v) pt sb \<bind> (\<lambda>(b, sc).
           rd2 dealerLess (s + v) pt sc \<bind> (\<lambda>(l, sd).
           rd2 dealerEqual (s + v) pt sd \<bind> (\<lambda>(e, se).
           Some (add3 rnd acc (b, l, e), se)))))))"

definition stand_step ::
  "rounding \<Rightarrow> int \<Rightarrow> int \<Rightarrow> int \<Rightarrow> dbl \<times> dbl \<Rightarrow> tables \<Rightarrow> ((dbl \<times> dbl) \<times> tables) option" where
  "stand_step rnd du s hole acc st =
     (if du + hole > MAX_SUM then Some ((fadd rnd (fst acc) 1, snd acc), st)
      else rd2 dealerBust (du + hole) s st \<bind> (\<lambda>(b0, sa).
           (if b0 < - (1 / 2) then computeDealer rnd (du + hole) s sa else Some sa) \<bind> (\<lambda>sb.
           rd2 dealerBust (du + hole) s sb \<bind> (\<lambda>(b, sc).
           rd2 dealerBust (du + hole) s sc \<bind> (\<lambda>(b', sd).
           rd2 dealerLess (du + hole) s sd \<bind> (\<lambda>(l', se).
           rd2 dealerEqual (du + hole) s se \<bind> (\<lambda>(e', sf).
           rd2 dealerLess (du + hole) s sf \<bind> (\<lambda>(l2, sg).
           Some ((fadd rnd (fst acc) (fadd rnd b l2),
                  fadd rnd (snd acc) (fsub rnd 1 (fadd rnd (fadd rnd b' l') e'))), sg)))))))))"

definition opt_step ::
  "rounding \<Rightarrow> int \<Rightarrow> int \<Rightarrow> int \<Rightarrow> dbl \<times> dbl \<Rightarrow> tables \<Rightarrow> ((dbl \<times> dbl) \<times> tables) option" where
  "opt_step rnd du s v acc st =
     optimal rnd du (s + v) st \<bind> (\<lambda>(res, sa). Some (add2 rnd acc res, sa))"

subsection \<open>Predicates of the statements\<close>

text \<open>
  \<open>access_ok\<close>: the index ranges the engine is meant to stay in; \<open>prob\<close>: a
  probability; \<open>dist3\<close>: three probabilities with a sum of at most 1.
\<close>

definition access_ok :: "access \<Rightarrow> bool" where
  "access_ok a =
     (case a of
        DealerIdx i j \<Rightarrow> 2 \<le> i \<and> i \<le> 26 \<and> 4 \<le> j \<and> j \<le> 21
      | MemoIdx i \<Rightarrow> 4 \<le> i \<and> i \<le> 31)"



section \<open>The memoised code computes the recursion\<close>

subsection \<open>Table access\<close>

lemma in2_shaped2: "shaped2 t \<Longrightarrow> in2 t i j \<longleftrightarrow> inb i j"
  by (auto simp: shaped2_def in2_def inb_def)

lemma shaped2_upd2: "shaped2 t \<Longrightarrow> shaped2 (upd2 t i j x)"
  by (cases "nat i < 32") (auto simp: shaped2_def upd2_def nth_list_update)

lemma upd2_nth:
  "shaped2 t \<Longrightarrow> inb i j \<Longrightarrow> inb i' j' \<Longrightarrow>
   upd2 t i j x ! nat i' ! nat j' = (if i' = i \<and> j' = j then x else t ! nat i' ! nat j')"
  by (auto simp: shaped2_def upd2_def inb_def nth_list_update)

lemma frame_refl: "frame A st st"
  by (simp add: frame_def)

lemma frame_trans: "frame A st st' \<Longrightarrow> frame B st' st'' \<Longrightarrow> A \<subseteq> C \<Longrightarrow> B \<subseteq> C \<Longrightarrow> frame C st st''"
  by (auto simp: frame_def)

lemma tframe_refl: "tframe A st st"
  by (simp add: tframe_def)

lemma tframe_trans: "tframe A st st' \<Longrightarrow> tframe B st' st'' \<Longrightarrow> A \<subseteq> C \<Longrightarrow> B \<subseteq> C \<Longrightarrow> tframe C st st''"
  by (auto simp: tframe_def)

lemma frame_tframe: "frame A st st' \<Longrightarrow> tframe A st st'"
  by (simp add: frame_def tframe_def)

lemma frame_memoAt: "frame A st st' \<Longrightarrow> memoAt st' = memoAt st"
  by (simp add: frame_def memoAt_def fun_eq_iff)

lemma shaped_touch2 [simp]: "shaped (touch2 i j st) = shaped st"
  by (simp add: shaped_def touch2_def)

lemma dealerAt_touch2 [simp]: "dealerAt (touch2 i j st) = dealerAt st"
  by (simp add: dealerAt_def touch2_def fun_eq_iff)

lemma frame_touch2: "DealerIdx i j \<in> A \<Longrightarrow> frame A st (touch2 i j st)"
  by (auto simp: frame_def touch2_def)

lemma shaped_touch1 [simp]: "shaped (touch1 i st) = shaped st"
  by (simp add: shaped_def touch1_def)

lemma dealerAt_touch1 [simp]: "dealerAt (touch1 i st) = dealerAt st"
  by (simp add: dealerAt_def touch1_def fun_eq_iff)

lemma memoAt_touch1 [simp]: "memoAt (touch1 i st) = memoAt st"
  by (simp add: memoAt_def touch1_def fun_eq_iff)

lemma tframe_touch1: "MemoIdx i \<in> A \<Longrightarrow> tframe A st (touch1 i st)"
  by (auto simp: tframe_def touch1_def)

lemma rd2_Bust: "shaped st \<Longrightarrow> inb i j \<Longrightarrow>
  rd2 dealerBust i j st = Some (fst (dealerAt st i j), touch2 i j st)"
  by (simp add: rd2_def shaped_def in2_shaped2 dealerAt_def)

lemma rd2_Less: "shaped st \<Longrightarrow> inb i j \<Longrightarrow>
  rd2 dealerLess i j st = Some (fst (snd (dealerAt st i j)), touch2 i j st)"
  by (simp add: rd2_def shaped_def in2_shaped2 dealerAt_def)

lemma rd2_Equal: "shaped st \<Longrightarrow> inb i j \<Longrightarrow>
  rd2 dealerEqual i j st = Some (snd (snd (dealerAt st i j)), touch2 i j st)"
  by (simp add: rd2_def shaped_def in2_shaped2 dealerAt_def)

lemma rd1_Win: "shaped st \<Longrightarrow> 0 \<le> i \<Longrightarrow> i \<le> 31 \<Longrightarrow>
  rd1 memoWin i st = Some (fst (memoAt st i), touch1 i st)"
  by (simp add: rd1_def shaped_def in1_def memoAt_def)

lemma rd1_Loss: "shaped st \<Longrightarrow> 0 \<le> i \<Longrightarrow> i \<le> 31 \<Longrightarrow>
  rd1 memoLoss i st = Some (snd (memoAt st i), touch1 i st)"
  by (simp add: rd1_def shaped_def in1_def memoAt_def)

lemma store3_ok:
  assumes "shaped st" "inb s pt"
  shows "\<exists>st'. store3 s pt t st = Some st' \<and> shaped st' \<and> frame {DealerIdx s pt} st st' \<and>
     (\<forall>i j. inb i j \<longrightarrow> dealerAt st' i j = (if i = s \<and> j = pt then t else dealerAt st i j))"
  using assms
  by (cases t) (auto simp: store3_def setBust_def setLess_def setEqual_def shaped_def in2_shaped2 shaped2_upd2
      touch2_def frame_def dealerAt_def upd2_nth)

lemma memoStore_ok:
  assumes "shaped st" "0 \<le> s" "s \<le> 31"
  shows "\<exists>st'. memoStore s w l st = Some st' \<and> shaped st' \<and> dealerAt st' = dealerAt st \<and>
     (\<forall>i. 0 \<le> i \<and> i \<le> 31 \<longrightarrow> memoAt st' i = (if i = s then (w, l) else memoAt st i)) \<and>
     tframe {MemoIdx s} st st'"
  using assms
  by (auto simp: memoStore_def setMemoWin_def setMemoLoss_def shaped_def in1_def touch1_def
      tframe_def dealerAt_def memoAt_def fun_eq_iff nth_list_update)

lemma dinv_touch2 [simp]: "dinv rnd (touch2 i j st) = dinv rnd st"
  by (simp add: dinv_def)

lemma dinv_touch1 [simp]: "dinv rnd (touch1 i st) = dinv rnd st"
  by (simp add: dinv_def)

lemma minv_touch1 [simp]: "minv rnd du (touch1 i st) = minv rnd du st"
  by (simp add: minv_def)

lemma minv_cong: "memoAt st' = memoAt st \<Longrightarrow> minv rnd du st' = minv rnd du st"
  by (simp add: minv_def)

lemma dinv_cong: "shaped st' \<Longrightarrow> dealerAt st' = dealerAt st \<Longrightarrow> dinv rnd st \<Longrightarrow> dinv rnd st'"
  by (simp add: dinv_def)

lemma dinv_store3:
  assumes "dinv rnd st" "inb s pt"
  shows "\<exists>st'. store3 s pt (spec_dealerOutcome rnd s pt) st = Some st' \<and> dinv rnd st' \<and>
     frame {DealerIdx s pt} st st' \<and> dealerAt st' s pt = spec_dealerOutcome rnd s pt"
proof -
  from assms have "shaped st" by (simp add: dinv_def)
  from store3_ok [OF this assms(2), of "spec_dealerOutcome rnd s pt"] obtain st'
    where 1: "store3 s pt (spec_dealerOutcome rnd s pt) st = Some st'" "shaped st'"
      "frame {DealerIdx s pt} st st'"
      "\<And>i j. inb i j \<Longrightarrow> dealerAt st' i j = (if i = s \<and> j = pt then spec_dealerOutcome rnd s pt else dealerAt st i j)"
    by blast
  have "dinv rnd st'"
    unfolding dinv_def using 1(2,4) assms(1) by (auto simp: dinv_def)
  with 1 assms(2) show ?thesis by auto
qed

subsection \<open>Loops\<close>

lemma loopM_rule:
  assumes "I st"
    and "\<And>v a st. v \<in> set vs \<Longrightarrow> I st \<Longrightarrow> \<exists>st'. body v a st = Some (g a v, st') \<and> I st'"
  shows "\<exists>st'. loopM body vs acc st = Some (foldl g acc vs, st') \<and> I st'"
  using assms
proof (induction vs arbitrary: acc st)
  case Nil
  then show ?case by simp
next
  case (Cons v vs)
  from Cons.prems obtain st1 where 1: "body v acc st = Some (g acc v, st1)" "I st1"
    by (meson list.set_intros(1))
  have "\<exists>st'. loopM body vs (g acc v) st1 = Some (foldl g (g acc v) vs, st') \<and> I st'"
    by (rule Cons.IH [OF 1(2)]) (use Cons.prems(2) in auto)
  with 1 show ?case by simp
qed

lemma foldl_add3:
  "foldl (\<lambda>a v. add3 rnd a (f v)) a vs =
     (foldl (fadd rnd) (fst a) (map (\<lambda>v. fst (f v)) vs),
      foldl (fadd rnd) (fst (snd a)) (map (\<lambda>v. fst (snd (f v))) vs),
      foldl (fadd rnd) (snd (snd a)) (map (\<lambda>v. snd (snd (f v))) vs))"
  by (induction vs arbitrary: a) (simp_all add: add3_def)

lemma foldl_add2:
  "foldl (\<lambda>a v. add2 rnd a (f v)) a vs =
     (foldl (fadd rnd) (fst a) (map (\<lambda>v. fst (f v)) vs),
      foldl (fadd rnd) (snd a) (map (\<lambda>v. snd (f v)) vs))"
  by (induction vs arbitrary: a) (simp_all add: add2_def)

subsection \<open>computeDealer\<close>

lemma computeDealer_unfold:
  "computeDealer rnd s pt st =
     (if s > MAX_SUM then Some st
      else rd2 dealerBust s pt st \<bind> (\<lambda>(b, st1).
        if b \<ge> - (1 / 2) then Some st1
        else if s > TARGET then store3 s pt (1, 0, 0) st1
        else if s \<ge> 17 then store3 s pt (0, if s < pt then 1 else 0, if s = pt then 1 else 0) st1
        else loopM (dealer_step rnd s pt) [1..MAX_CARD] (0, 0, 0) st1 \<bind> (\<lambda>(acc, st2).
          store3 s pt (fdiv rnd (fst acc) 10, fdiv rnd (fst (snd acc)) 10, fdiv rnd (snd (snd acc)) 10) st2)))"
proof -
  have body: "(\<lambda>v (accBust, accLess, accEqual) st.
                let ns = s + v in
                if ns > MAX_SUM then Some ((fadd rnd accBust 1, accLess, accEqual), st)
                else do {
                  (b0, sa) \<leftarrow> rd2 dealerBust ns pt st;
                  sb \<leftarrow> (if b0 < - (1 / 2) then computeDealer rnd ns pt sa else Some sa);
                  (b, sc) \<leftarrow> rd2 dealerBust ns pt sb;
                  (l, sd) \<leftarrow> rd2 dealerLess ns pt sc;
                  (e, se) \<leftarrow> rd2 dealerEqual ns pt sd;
                  Some ((fadd rnd accBust b, fadd rnd accLess l, fadd rnd accEqual e), se) })
     = dealer_step rnd s pt"
    by (auto simp: fun_eq_iff dealer_step_def add3_def Let_def split: prod.splits)
  show ?thesis
    by (subst computeDealer.simps, unfold body) (auto simp: store3_def split: prod.splits Option.bind_splits)
qed

lemma dealer_step_ok:
  assumes IH: "\<And>st. dinv rnd st \<Longrightarrow> \<exists>st'. computeDealer rnd (s + v) pt st = Some st' \<and> dinv rnd st' \<and>
        frame (dacc (s + v) pt) st st' \<and> dealerAt st' (s + v) pt = spec_dealerOutcome rnd (s + v) pt"
    and "dinv rnd st" "inb (s + v) pt"
  shows "\<exists>st'. dealer_step rnd s pt v acc st = Some (add3 rnd acc (spec_dealerOutcome rnd (s + v) pt), st') \<and>
     dinv rnd st' \<and> frame (dacc (s + v) pt) st st'"
proof -
  let ?ns = "s + v"
  have sh: "shaped st" using assms(2) by (simp add: dinv_def)
  have le: "\<not> ?ns > MAX_SUM" using assms(3) by (simp add: inb_def)
  have mem: "DealerIdx ?ns pt \<in> dacc ?ns pt" by (simp add: dacc_def)
  let ?sa = "touch2 ?ns pt st"
  have fa: "frame (dacc ?ns pt) st ?sa" by (rule frame_touch2 [OF mem])
  have "\<exists>sb. (if fst (dealerAt st ?ns pt) < - (1 / 2) then computeDealer rnd ?ns pt ?sa else Some ?sa) = Some sb
      \<and> dinv rnd sb \<and> frame (dacc ?ns pt) st sb \<and> dealerAt sb ?ns pt = spec_dealerOutcome rnd ?ns pt"
  proof (cases "fst (dealerAt st ?ns pt) < - (1 / 2)")
    case True
    from IH [of ?sa] assms(2) obtain sb where "computeDealer rnd ?ns pt ?sa = Some sb" "dinv rnd sb"
      "frame (dacc ?ns pt) ?sa sb" "dealerAt sb ?ns pt = spec_dealerOutcome rnd ?ns pt"
      by auto
    with True fa show ?thesis by (auto intro: frame_trans)
  next
    case False
    with assms(2,3) have "dealerAt st ?ns pt = spec_dealerOutcome rnd ?ns pt"
      by (simp add: dinv_def)
    with False fa assms(2) show ?thesis by simp
  qed
  then obtain sb where sb: "(if fst (dealerAt st ?ns pt) < - (1 / 2) then computeDealer rnd ?ns pt ?sa else Some ?sa) = Some sb"
    "dinv rnd sb" "frame (dacc ?ns pt) st sb" "dealerAt sb ?ns pt = spec_dealerOutcome rnd ?ns pt"
    by blast
  have shb: "shaped sb" using sb(2) by (simp add: dinv_def)
  let ?se = "touch2 ?ns pt (touch2 ?ns pt (touch2 ?ns pt sb))"
  have "frame (dacc ?ns pt) sb ?se"
    using mem by (auto simp: frame_def touch2_def)
  with sb(3) have fe: "frame (dacc ?ns pt) st ?se" by (auto intro: frame_trans)
  have "dealer_step rnd s pt v acc st = Some (add3 rnd acc (spec_dealerOutcome rnd ?ns pt), ?se)"
    using le sh shb assms(3) sb(1,4)
    by (simp add: dealer_step_def rd2_Bust rd2_Less rd2_Equal)
  with sb(2) fe show ?thesis by simp
qed

lemma dacc_mono: "1 \<le> v \<Longrightarrow> s + v \<le> 26 \<Longrightarrow> dacc (s + v) pt \<subseteq> dacc s pt"
  by (auto simp: dacc_def)

lemma computeDealer_spec:
  assumes "dinv rnd st" "0 \<le> s" "0 \<le> pt" "pt \<le> 21"
  shows "\<exists>st'. computeDealer rnd s pt st = Some st' \<and> dinv rnd st' \<and> frame (dacc s pt) st st' \<and>
     (s \<le> 31 \<longrightarrow> dealerAt st' s pt = spec_dealerOutcome rnd s pt)"
  using assms
proof (induction "nat (32 - s)" arbitrary: s st rule: less_induct)
  case less
  show ?case
  proof (cases "s > 31")
    case True
    with less.prems show ?thesis by (simp add: computeDealer_unfold frame_refl)
  next
    case False
    with less.prems have ib: "inb s pt" by (simp add: inb_def)
    have sh: "shaped st" using less.prems(1) by (simp add: dinv_def)
    have mem: "DealerIdx s pt \<in> dacc s pt" by (simp add: dacc_def)
    let ?st1 = "touch2 s pt st"
    have f1: "frame (dacc s pt) st ?st1" by (rule frame_touch2 [OF mem])
    have d1: "dinv rnd ?st1" using less.prems(1) by simp
    show ?thesis
    proof (cases "fst (dealerAt st s pt) \<ge> - (1 / 2)")
      case True
      with less.prems(1) ib have "dealerAt st s pt = spec_dealerOutcome rnd s pt"
        by (simp add: dinv_def)
      with True False sh ib f1 d1 show ?thesis
        by (simp add: computeDealer_unfold rd2_Bust)
    next
      case unset: False
      have store: "\<exists>st'. store3 s pt (spec_dealerOutcome rnd s pt) st2 = Some st' \<and> dinv rnd st' \<and>
          frame (dacc s pt) st st' \<and> dealerAt st' s pt = spec_dealerOutcome rnd s pt"
        if "dinv rnd st2" "frame (dacc s pt) st st2" for st2
      proof -
        from dinv_store3 [OF that(1) ib] obtain st' where
          "store3 s pt (spec_dealerOutcome rnd s pt) st2 = Some st'" "dinv rnd st'"
          "frame {DealerIdx s pt} st2 st'" "dealerAt st' s pt = spec_dealerOutcome rnd s pt"
          by blast
        moreover from this that(2) mem have "frame (dacc s pt) st st'"
          by (auto intro: frame_trans)
        ultimately show ?thesis by blast
      qed
      show ?thesis
      proof (cases "s \<ge> 17")
        case True
        then have sp: "spec_dealerOutcome rnd s pt =
            (if s > 21 then (1, 0, 0) else (0, if s < pt then 1 else 0, if s = pt then 1 else 0))"
          by (subst spec_dealerOutcome.simps) simp
        from store [OF d1 f1] obtain st' where
          "store3 s pt (spec_dealerOutcome rnd s pt) ?st1 = Some st'" "dinv rnd st'"
          "frame (dacc s pt) st st'" "dealerAt st' s pt = spec_dealerOutcome rnd s pt"
          by blast
        with True False unset sh ib show ?thesis
          by (auto simp add: computeDealer_unfold rd2_Bust sp)
      next
        case low: False
        define I where "I st2 \<longleftrightarrow> dinv rnd st2 \<and> frame (dacc s pt) st st2" for st2
        have step: "\<exists>st'. dealer_step rnd s pt v a st2 = Some (add3 rnd a (spec_dealerOutcome rnd (s + v) pt), st') \<and> I st'"
          if "v \<in> set [1..MAX_CARD]" "I st2" for v a st2
        proof -
          from that(1) have v: "1 \<le> v" "v \<le> 10" by auto
          with low less.prems have ibv: "inb (s + v) pt" by (simp add: inb_def)
          have "\<exists>st'. computeDealer rnd (s + v) pt x = Some st' \<and> dinv rnd st' \<and>
              frame (dacc (s + v) pt) x st' \<and> dealerAt st' (s + v) pt = spec_dealerOutcome rnd (s + v) pt"
            if "dinv rnd x" for x
            using less.hyps [of "s + v" x] that v low less.prems by auto
          from dealer_step_ok [OF this _ ibv, of st2 a] that(2) obtain st' where
            "dealer_step rnd s pt v a st2 = Some (add3 rnd a (spec_dealerOutcome rnd (s + v) pt), st')"
            "dinv rnd st'" "frame (dacc (s + v) pt) st2 st'"
            by (auto simp: I_def)
          moreover have "dacc (s + v) pt \<subseteq> dacc s pt"
            using v low by (intro dacc_mono) auto
          ultimately show ?thesis using that(2) by (auto simp: I_def intro: frame_trans)
        qed
        have "I ?st1" using d1 f1 by (simp add: I_def)
        from loopM_rule [where I = I and g = "\<lambda>a v. add3 rnd a (spec_dealerOutcome rnd (s + v) pt)"
            and vs = "[1..MAX_CARD]" and acc = "(0, 0, 0)" and body = "dealer_step rnd s pt", OF this step]
        obtain st2 where lp: "loopM (dealer_step rnd s pt) [1..MAX_CARD] (0, 0, 0) ?st1 =
            Some (foldl (\<lambda>a v. add3 rnd a (spec_dealerOutcome rnd (s + v) pt)) (0, 0, 0) [1..MAX_CARD], st2)"
          "I st2" by blast
        have sp: "spec_dealerOutcome rnd s pt =
            (let acc = foldl (\<lambda>a v. add3 rnd a (spec_dealerOutcome rnd (s + v) pt)) (0, 0, 0) [1..MAX_CARD]
             in (fdiv rnd (fst acc) 10, fdiv rnd (fst (snd acc)) 10, fdiv rnd (snd (snd acc)) 10))"
          using low by (subst spec_dealerOutcome.simps) (simp add: foldl_add3 fmean10_def fsum_def)
        from store [of st2] lp(2) obtain st' where
          "store3 s pt (spec_dealerOutcome rnd s pt) st2 = Some st'" "dinv rnd st'"
          "frame (dacc s pt) st st'" "dealerAt st' s pt = spec_dealerOutcome rnd s pt"
          by (auto simp: I_def)
        with low False unset sh ib lp(1) show ?thesis
          by (simp add: computeDealer_unfold rd2_Bust sp Let_def)
      qed
    qed
  qed
qed

subsection \<open>standProbs\<close>

lemma standProbs_unfold:
  "standProbs rnd du s st =
     (if s > TARGET then Some ((0, 1), st)
      else loopM (stand_step rnd du s) [1..MAX_CARD] (0, 0) st \<bind> (\<lambda>(acc, st1).
        Some ((fdiv rnd (fst acc) 10, fdiv rnd (snd acc) 10), st1)))"
proof -
  have body: "(\<lambda>hole (win, loss) st.
              let start = du + hole in
              if start > MAX_SUM then Some ((fadd rnd win 1, loss), st)
              else do {
                (b0, sa) \<leftarrow> rd2 dealerBust start s st;
                sb \<leftarrow> (if b0 < - (1 / 2) then computeDealer rnd start s sa else Some sa);
                (b, sc) \<leftarrow> rd2 dealerBust start s sb;
                (b', sd) \<leftarrow> rd2 dealerBust start s sc;
                (l', se) \<leftarrow> rd2 dealerLess start s sd;
                (e', sf) \<leftarrow> rd2 dealerEqual start s se;
                let l = fsub rnd 1 (fadd rnd (fadd rnd b' l') e');
                (l2, sg) \<leftarrow> rd2 dealerLess start s sf;
                Some ((fadd rnd win (fadd rnd b l2), fadd rnd loss l), sg) })
     = stand_step rnd du s"
    by (auto simp: fun_eq_iff stand_step_def Let_def split: prod.splits)
  show ?thesis
    unfolding standProbs_def body by (auto split: prod.splits Option.bind_splits)
qed

lemma stand_step_ok:
  assumes "dinv rnd st" "inb (du + hole) s"
  shows "\<exists>st'. stand_step rnd du s hole acc st =
        Some (add2 rnd acc (stand_contrib rnd (spec_dealerOutcome rnd (du + hole) s)), st') \<and>
     dinv rnd st' \<and> frame (dacc (du + hole) s) st st'"
proof -
  let ?ns = "du + hole"
  have sh: "shaped st" using assms(1) by (simp add: dinv_def)
  have le: "\<not> ?ns > MAX_SUM" "0 \<le> ?ns" "0 \<le> s" "s \<le> 21" using assms(2) by (simp_all add: inb_def)
  have mem: "DealerIdx ?ns s \<in> dacc ?ns s" by (simp add: dacc_def)
  let ?sa = "touch2 ?ns s st"
  have fa: "frame (dacc ?ns s) st ?sa" by (rule frame_touch2 [OF mem])
  have "\<exists>sb. (if fst (dealerAt st ?ns s) < - (1 / 2) then computeDealer rnd ?ns s ?sa else Some ?sa) = Some sb
      \<and> dinv rnd sb \<and> frame (dacc ?ns s) st sb \<and> dealerAt sb ?ns s = spec_dealerOutcome rnd ?ns s"
  proof (cases "fst (dealerAt st ?ns s) < - (1 / 2)")
    case True
    from computeDealer_spec [of rnd ?sa ?ns s] assms(1) le
    obtain sb where "computeDealer rnd ?ns s ?sa = Some sb" "dinv rnd sb"
      "frame (dacc ?ns s) ?sa sb" "dealerAt sb ?ns s = spec_dealerOutcome rnd ?ns s"
      by auto
    with True fa show ?thesis by (auto intro: frame_trans)
  next
    case False
    with assms have "dealerAt st ?ns s = spec_dealerOutcome rnd ?ns s"
      by (simp add: dinv_def)
    with False fa assms(1) show ?thesis by simp
  qed
  then obtain sb where sb: "(if fst (dealerAt st ?ns s) < - (1 / 2) then computeDealer rnd ?ns s ?sa else Some ?sa) = Some sb"
    "dinv rnd sb" "frame (dacc ?ns s) st sb" "dealerAt sb ?ns s = spec_dealerOutcome rnd ?ns s"
    by blast
  have shb: "shaped sb" using sb(2) by (simp add: dinv_def)
  let ?sg = "touch2 ?ns s (touch2 ?ns s (touch2 ?ns s (touch2 ?ns s (touch2 ?ns s sb))))"
  have "frame (dacc ?ns s) sb ?sg"
    using mem by (auto simp: frame_def touch2_def)
  with sb(3) have fe: "frame (dacc ?ns s) st ?sg" by (auto intro: frame_trans)
  have "stand_step rnd du s hole acc st =
      Some (add2 rnd acc (stand_contrib rnd (spec_dealerOutcome rnd ?ns s)), ?sg)"
    using le sh shb assms(2) sb(1,4)
    by (simp add: stand_step_def rd2_Bust rd2_Less rd2_Equal add2_def stand_contrib_def split: prod.splits)
  with sb(2) fe show ?thesis by simp
qed

lemma standProbs_spec:
  assumes "dinv rnd st" "1 \<le> du" "du \<le> 10" "0 \<le> s"
  shows "\<exists>st'. standProbs rnd du s st = Some (spec_standOutcome rnd du s, st') \<and> dinv rnd st' \<and>
     frame (sacc du s) st st'"
proof (cases "s > 21")
  case True
  with assms show ?thesis
    by (simp add: standProbs_unfold spec_standOutcome_def frame_refl)
next
  case False
  define I where "I st2 \<longleftrightarrow> dinv rnd st2 \<and> frame (sacc du s) st st2" for st2
  have step: "\<exists>st'. stand_step rnd du s h a st2 =
        Some (add2 rnd a (stand_contrib rnd (spec_dealerOutcome rnd (du + h) s)), st') \<and> I st'"
    if "h \<in> set [1..MAX_CARD]" "I st2" for h a st2
  proof -
    from that(1) have h: "1 \<le> h" "h \<le> 10" by auto
    with False assms have ib: "inb (du + h) s" by (simp add: inb_def)
    from stand_step_ok [OF _ ib, of rnd st2 a] that(2) obtain st' where
      "stand_step rnd du s h a st2 = Some (add2 rnd a (stand_contrib rnd (spec_dealerOutcome rnd (du + h) s)), st')"
      "dinv rnd st'" "frame (dacc (du + h) s) st2 st'"
      by (auto simp: I_def)
    moreover have "dacc (du + h) s \<subseteq> sacc du s"
      using h assms by (auto simp: dacc_def sacc_def)
    ultimately show ?thesis using that(2) by (auto simp: I_def intro: frame_trans)
  qed
  have "I st" using assms(1) by (simp add: I_def frame_refl)
  from loopM_rule [where I = I and g = "\<lambda>a h. add2 rnd a (stand_contrib rnd (spec_dealerOutcome rnd (du + h) s))"
      and vs = "[1..MAX_CARD]" and acc = "(0, 0)" and body = "stand_step rnd du s", OF this step]
  obtain st2 where lp: "loopM (stand_step rnd du s) [1..MAX_CARD] (0, 0) st =
      Some (foldl (\<lambda>a h. add2 rnd a (stand_contrib rnd (spec_dealerOutcome rnd (du + h) s))) (0, 0) [1..MAX_CARD], st2)"
    "I st2" by blast
  have sp: "spec_standOutcome rnd du s =
      (let acc = foldl (\<lambda>a h. add2 rnd a (stand_contrib rnd (spec_dealerOutcome rnd (du + h) s))) (0, 0) [1..MAX_CARD]
       in (fdiv rnd (fst acc) 10, fdiv rnd (snd acc) 10))"
    using False
    by (simp add: spec_standOutcome_def foldl_add2 fmean10_def fsum_def stand_contrib_def case_prod_beta)
  from False lp show ?thesis
    by (simp add: standProbs_unfold sp Let_def I_def)
qed

subsection \<open>optimal\<close>

lemma spec_optimal_unfold:
  "spec_optimal rnd du s =
     (if s > 21 then (0, 1)
      else if fst (spec_standOutcome rnd du s) \<ge> fst (spec_hit rnd du s)
        then spec_standOutcome rnd du s else spec_hit rnd du s)"
  by (subst spec_optimal.simps) (simp add: spec_hit_def Let_def)

lemma optimal_unfold:
  "optimal rnd du s st =
     (if s > TARGET then Some ((0, 1), st)
      else (if s \<le> MAX_SUM then rd1 memoWin s st \<bind> (\<lambda>(w, sa). Some (w \<ge> - (1 / 2), sa))
            else Some (False, st)) \<bind> (\<lambda>(cached, st1).
        if cached then rd1 memoWin s st1 \<bind> (\<lambda>(w, sa). rd1 memoLoss s sa \<bind> (\<lambda>(l, sb). Some ((w, l), sb)))
        else standProbs rnd du s st1 \<bind> (\<lambda>(stand, st2).
          loopM (opt_step rnd du s) [1..MAX_CARD] (0, 0) st2 \<bind> (\<lambda>(acc, st3).
            let hit = (fdiv rnd (fst acc) 10, fdiv rnd (snd acc) 10) in
            if fst stand \<ge> fst hit
            then memoStore s (fst stand) (snd stand) st3 \<bind> (\<lambda>st4. Some (stand, st4))
            else memoStore s (fst hit) (snd hit) st3 \<bind> (\<lambda>st4. Some (hit, st4))))))"
proof -
  have body: "(\<lambda>v (hitW, hitL) st. do {
                let ns = s + v;
                (res, sa) \<leftarrow> optimal rnd du ns st;
                Some ((fadd rnd hitW (fst res), fadd rnd hitL (snd res)), sa) })
     = opt_step rnd du s"
    by (auto simp: fun_eq_iff opt_step_def add2_def Let_def split: prod.splits Option.bind_splits)
  show ?thesis
    by (subst optimal.simps, unfold body) (auto simp: Let_def split: prod.splits Option.bind_splits)
qed

lemma oacc_mono: "s \<le> s' \<Longrightarrow> oacc du s' \<subseteq> oacc du s"
  by (auto simp: oacc_def)

lemma sacc_oacc: "s \<le> 21 \<Longrightarrow> sacc du s \<subseteq> oacc du s"
  by (auto simp: oacc_def sacc_def)

lemma optimal_spec:
  assumes "tables_inv rnd du st" "1 \<le> du" "du \<le> 10" "0 \<le> s"
  shows "\<exists>st'. optimal rnd du s st = Some (spec_optimal rnd du s, st') \<and> tables_inv rnd du st' \<and>
     tframe (oacc du s) st st'"
  using assms
proof (induction "nat (22 - s)" arbitrary: s st rule: less_induct)
  case less
  show ?case
  proof (cases "s > 21")
    case True
    with less.prems show ?thesis
      by (simp add: optimal_unfold spec_optimal_unfold tframe_refl)
  next
    case False
    then have rng: "0 \<le> s" "s \<le> 31" "s \<le> 21" using less.prems by auto
    have sh: "shaped st" using less.prems(1) by (simp add: tables_inv_def dinv_def)
    have mem: "MemoIdx s \<in> oacc du s" using rng by (simp add: oacc_def)
    let ?st1 = "touch1 s st"
    have i1: "tables_inv rnd du ?st1" using less.prems(1) by (simp add: tables_inv_def)
    have t1: "tframe (oacc du s) st ?st1" by (rule tframe_touch1 [OF mem])
    show ?thesis
    proof (cases "fst (memoAt st s) \<ge> - (1 / 2)")
      case True
      with less.prems(1) rng have val: "memoAt st s = spec_optimal rnd du s"
        by (simp add: tables_inv_def minv_def)
      let ?st3 = "touch1 s (touch1 s ?st1)"
      have "tframe (oacc du s) st ?st3"
        using mem by (auto simp: tframe_def touch1_def)
      moreover have "tables_inv rnd du ?st3" using less.prems(1) by (simp add: tables_inv_def)
      moreover have "optimal rnd du s st = Some (spec_optimal rnd du s, ?st3)"
        using True rng sh val [symmetric] by (simp add: optimal_unfold rd1_Win rd1_Loss)
      ultimately show ?thesis by blast
    next
      case unset: False
      from i1 have d1: "dinv rnd ?st1" and m1: "minv rnd du ?st1" by (simp_all add: tables_inv_def)
      from standProbs_spec [OF d1 less.prems(2,3) rng(1)] obtain st2 where
        st2: "standProbs rnd du s ?st1 = Some (spec_standOutcome rnd du s, st2)" "dinv rnd st2"
          "frame (sacc du s) ?st1 st2"
        by blast
      have i2: "tables_inv rnd du st2"
        using st2(2) m1 minv_cong [OF frame_memoAt [OF st2(3)]] by (simp add: tables_inv_def)
      have t2: "tframe (oacc du s) st st2"
        using t1 frame_tframe [OF st2(3)] sacc_oacc [OF rng(3)] by (auto intro: tframe_trans)
      define I where "I x \<longleftrightarrow> tables_inv rnd du x \<and> tframe (oacc du s) st x" for x
      have step: "\<exists>st'. opt_step rnd du s v a x = Some (add2 rnd a (spec_optimal rnd du (s + v)), st') \<and> I st'"
        if "v \<in> set [1..MAX_CARD]" "I x" for v a x
      proof -
        from that(1) have v: "1 \<le> v" "v \<le> 10" by auto
        from less.hyps [of "s + v" x] v rng that(2) less.prems(2,3) obtain st' where
          "optimal rnd du (s + v) x = Some (spec_optimal rnd du (s + v), st')"
          "tables_inv rnd du st'" "tframe (oacc du (s + v)) x st'"
          by (auto simp: I_def)
        moreover have "oacc du (s + v) \<subseteq> oacc du s"
          using v by (intro oacc_mono) auto
        ultimately show ?thesis using that(2)
          by (auto simp: I_def opt_step_def intro: tframe_trans)
      qed
      have "I st2" using i2 t2 by (simp add: I_def)
      from loopM_rule [where I = I and g = "\<lambda>a v. add2 rnd a (spec_optimal rnd du (s + v))"
          and vs = "[1..MAX_CARD]" and acc = "(0, 0)" and body = "opt_step rnd du s", OF this step]
      obtain st3 where lp: "loopM (opt_step rnd du s) [1..MAX_CARD] (0, 0) st2 =
          Some (foldl (\<lambda>a v. add2 rnd a (spec_optimal rnd du (s + v))) (0, 0) [1..MAX_CARD], st3)"
        "I st3" by blast
      have hit: "fdiv rnd (fst (foldl (\<lambda>a v. add2 rnd a (spec_optimal rnd du (s + v))) (0, 0) [1..MAX_CARD])) 10
            = fst (spec_hit rnd du s)"
          "fdiv rnd (snd (foldl (\<lambda>a v. add2 rnd a (spec_optimal rnd du (s + v))) (0, 0) [1..MAX_CARD])) 10
            = snd (spec_hit rnd du s)"
        by (simp_all add: foldl_add2 spec_hit_def fmean10_def fsum_def)
      from lp(2) have i3: "tables_inv rnd du st3" and t3: "tframe (oacc du s) st st3"
        by (simp_all add: I_def)
      have sh3: "shaped st3" using i3 by (simp add: tables_inv_def dinv_def)
      obtain w l where wl: "spec_optimal rnd du s = (w, l)" by (cases "spec_optimal rnd du s")
      from memoStore_ok [OF sh3 rng(1,2), of w l] obtain st4 where
        st4: "memoStore s w l st3 = Some st4" "shaped st4" "dealerAt st4 = dealerAt st3"
          "\<And>i. 0 \<le> i \<and> i \<le> 31 \<Longrightarrow> memoAt st4 i = (if i = s then (w, l) else memoAt st3 i)"
          "tframe {MemoIdx s} st3 st4"
        by blast
      have "dinv rnd st4"
        using dinv_cong [OF st4(2,3)] i3 by (simp add: tables_inv_def)
      moreover have "minv rnd du st4"
        using i3 st4(4) wl by (auto simp: tables_inv_def minv_def)
      ultimately have i4: "tables_inv rnd du st4" by (simp add: tables_inv_def)
      have t4: "tframe (oacc du s) st st4"
        using t3 st4(5) mem by (auto intro: tframe_trans)
      have "optimal rnd du s st = Some (spec_optimal rnd du s, st4)"
      proof (cases "fst (spec_standOutcome rnd du s) \<ge> fst (spec_hit rnd du s)")
        case True
        with False have "spec_optimal rnd du s = spec_standOutcome rnd du s"
          by (simp add: spec_optimal_unfold)
        with True unset rng sh st2(1) lp(1) st4(1) wl hit show ?thesis
          by (simp add: optimal_unfold rd1_Win Let_def)
      next
        case hitc: False
        with False have "spec_optimal rnd du s = spec_hit rnd du s"
          by (simp add: spec_optimal_unfold)
        with hitc unset rng sh st2(1) lp(1) st4(1) wl hit show ?thesis
          by (simp add: optimal_unfold rd1_Win Let_def)
      qed
      with i4 t4 show ?thesis by blast
    qed
  qed
qed

subsection \<open>Fresh tables\<close>

lemma shaped_init: "shaped init_tables"
  by (simp add: shaped_def shaped2_def init_tables_def)

lemma dealerAt_init: "inb s pt \<Longrightarrow> dealerAt init_tables s pt = (- 1, - 1, - 1)"
  by (auto simp: dealerAt_def init_tables_def inb_def)

lemma memoAt_init: "0 \<le> s \<Longrightarrow> s \<le> 31 \<Longrightarrow> memoAt init_tables s = (- 1, - 1)"
  by (auto simp: memoAt_def init_tables_def)

lemma dinv_init: "dinv rnd init_tables"
  by (simp add: dinv_def shaped_init dealerAt_init)

lemma tables_inv_init: "tables_inv rnd du init_tables"
  by (simp add: tables_inv_def dinv_init minv_def memoAt_init)

lemma trace_init: "trace init_tables = []"
  by (simp add: init_tables_def)

lemma dealerOutcome_spec:
  assumes "0 \<le> s" "s \<le> 31" "0 \<le> pt" "pt \<le> 21"
  shows "dealerOutcome rnd s pt = Some (spec_dealerOutcome rnd s pt)"
proof -
  from computeDealer_spec [OF dinv_init assms(1,3,4), of rnd] assms(2) obtain st' where
    1: "computeDealer rnd s pt init_tables = Some st'" "dinv rnd st'"
      "dealerAt st' s pt = spec_dealerOutcome rnd s pt"
    by auto
  have "shaped st'" using 1(2) by (simp add: dinv_def)
  moreover have "inb s pt" using assms by (simp add: inb_def)
  ultimately show ?thesis
    using 1(1,3) by (simp add: dealerOutcome_def rd2_Bust rd2_Less rd2_Equal)
qed

lemma standOutcome_spec:
  assumes "1 \<le> du" "du \<le> 10" "0 \<le> pt"
  shows "standOutcome rnd du pt = Some (spec_standOutcome rnd du pt)"
proof -
  from standProbs_spec [OF dinv_init assms, of rnd] obtain st' where
    "standProbs rnd du pt init_tables = Some (spec_standOutcome rnd du pt, st')" by blast
  then show ?thesis by (simp add: standOutcome_def)
qed

lemma optimalOutcome_spec:
  assumes "1 \<le> du" "du \<le> 10" "0 \<le> pt"
  shows "optimalOutcome rnd du pt = Some (spec_optimal rnd du pt)"
proof -
  from optimal_spec [OF tables_inv_init assms, of rnd] obtain st' where
    "optimal rnd du pt init_tables = Some (spec_optimal rnd du pt, st')" by blast
  then show ?thesis by (simp add: optimalOutcome_def)
qed

lemma those_map_Some: "those (map (\<lambda>v. Some (f v)) vs) = Some (map f vs)"
  by (induction vs) simp_all

lemma hitOutcome_spec:
  assumes "1 \<le> du" "du \<le> 10" "0 \<le> pt"
  shows "hitOutcome rnd du pt = Some (spec_hit rnd du pt)"
proof -
  have eq: "map (\<lambda>v. optimalOutcome rnd du (pt + v)) [1..MAX_CARD] =
      map (\<lambda>v. Some (spec_optimal rnd du (pt + v))) [1..MAX_CARD]"
    using assms by (intro map_cong refl optimalOutcome_spec) auto
  show ?thesis
    unfolding hitOutcome_def eq those_map_Some by (simp add: spec_hit_def o_def)
qed

text \<open>
  What the tables already hold never changes what a call returns: from any tables that
  satisfy the invariant, each closure succeeds, keeps the invariant and returns the value
  it returns on fresh tables.
\<close>

lemma computeDealer_memo_transparent:
  assumes "dinv rnd st" "0 \<le> s" "s \<le> 31" "0 \<le> pt" "pt \<le> 21"
  shows "\<exists>st'. computeDealer rnd s pt st = Some st' \<and> dinv rnd st' \<and>
     dealerOutcome rnd s pt = Some (dealerAt st' s pt)"
  using computeDealer_spec [OF assms(1,2,4,5)] dealerOutcome_spec [OF assms(2-5), of rnd] assms(3)
  by auto

lemma standProbs_memo_transparent:
  assumes "dinv rnd st" "1 \<le> du" "du \<le> 10" "0 \<le> s"
  shows "\<exists>r st'. standProbs rnd du s st = Some (r, st') \<and> dinv rnd st' \<and>
     standOutcome rnd du s = Some r"
  using standProbs_spec [OF assms] standOutcome_spec [OF assms(2-4), of rnd] by auto

lemma optimal_memo_transparent:
  assumes "tables_inv rnd du st" "1 \<le> du" "du \<le> 10" "0 \<le> s"
  shows "\<exists>r st'. optimal rnd du s st = Some (r, st') \<and> tables_inv rnd du st' \<and>
     optimalOutcome rnd du s = Some r"
  using optimal_spec [OF assms] optimalOutcome_spec [OF assms(2-4), of rnd] by auto

subsection \<open>computeOptions\<close>

lemma computeOptions_traced_unfold:
  "computeOptions_traced rnd hs du =
     (if du < 1 \<or> du > 10
      then Some (\<lparr>standWin = 0, standLoss = 0, hitWin = 0, hitLoss = 0, optWin = 0, optLoss = 0,
                 bestAction = []\<rparr>, [])
      else optimal rnd du hs init_tables \<bind> (\<lambda>(opt, st1).
           standProbs rnd du hs st1 \<bind> (\<lambda>(sp, st2).
           loopM (opt_step rnd du hs) [1..MAX_CARD] (0, 0) st2 \<bind> (\<lambda>(acc, st3).
           Some (\<lparr>standWin = fst sp, standLoss = snd sp,
                  hitWin = fdiv rnd (fst acc) 10, hitLoss = fdiv rnd (snd acc) 10,
                  optWin = fst opt, optLoss = snd opt,
                  bestAction = label (fst sp) (fdiv rnd (fst acc) 10)\<rparr>, trace st3)))))"
proof -
  have body: "(\<lambda>v (hitW, hitL) st. do {
              (r, sa) \<leftarrow> optimal rnd du (hs + v) st;
              Some ((fadd rnd hitW (fst r), fadd rnd hitL (snd r)), sa) })
     = opt_step rnd du hs"
    by (auto simp: fun_eq_iff opt_step_def add2_def split: prod.splits Option.bind_splits)
  show ?thesis
    unfolding computeOptions_traced_def body
    by (auto simp: Let_def label_def split: prod.splits Option.bind_splits)
qed

lemma hit_loop_spec:
  assumes "tables_inv rnd du st" "1 \<le> du" "du \<le> 10" "0 \<le> s"
  shows "\<exists>acc st'. loopM (opt_step rnd du s) [1..MAX_CARD] (0, 0) st = Some (acc, st') \<and>
     (fdiv rnd (fst acc) 10, fdiv rnd (snd acc) 10) = spec_hit rnd du s \<and>
     tables_inv rnd du st' \<and> tframe (oacc du s) st st'"
proof -
  define I where "I x \<longleftrightarrow> tables_inv rnd du x \<and> tframe (oacc du s) st x" for x
  have step: "\<exists>st'. opt_step rnd du s v a x = Some (add2 rnd a (spec_optimal rnd du (s + v)), st') \<and> I st'"
    if "v \<in> set [1..MAX_CARD]" "I x" for v a x
  proof -
    from that(1) have v: "1 \<le> v" "v \<le> 10" by auto
    from optimal_spec [of rnd du x "s + v"] v assms that(2) obtain st' where
      "optimal rnd du (s + v) x = Some (spec_optimal rnd du (s + v), st')"
      "tables_inv rnd du st'" "tframe (oacc du (s + v)) x st'"
      by (auto simp: I_def)
    moreover have "oacc du (s + v) \<subseteq> oacc du s"
      using v by (intro oacc_mono) auto
    ultimately show ?thesis using that(2)
      by (auto simp: I_def opt_step_def intro: tframe_trans)
  qed
  have "I st" using assms(1) by (simp add: I_def tframe_refl)
  from loopM_rule [where I = I and g = "\<lambda>a v. add2 rnd a (spec_optimal rnd du (s + v))"
      and vs = "[1..MAX_CARD]" and acc = "(0, 0)" and body = "opt_step rnd du s", OF this step]
  obtain st3 where lp: "loopM (opt_step rnd du s) [1..MAX_CARD] (0, 0) st =
      Some (foldl (\<lambda>a v. add2 rnd a (spec_optimal rnd du (s + v))) (0, 0) [1..MAX_CARD], st3)"
    "I st3" by blast
  then show ?thesis
    by (auto simp: I_def foldl_add2 spec_hit_def fmean10_def fsum_def)
qed

lemma computeOptions_traced_spec:
  assumes "1 \<le> du" "du \<le> 10" "0 \<le> hs"
  shows "\<exists>tr. computeOptions_traced rnd hs du = Some (spec_report rnd hs du, tr) \<and>
     set tr \<subseteq> oacc du hs \<union> sacc du hs"
proof -
  from optimal_spec [OF tables_inv_init assms, of rnd] obtain st1 where
    1: "optimal rnd du hs init_tables = Some (spec_optimal rnd du hs, st1)"
      "tables_inv rnd du st1" "tframe (oacc du hs) init_tables st1"
    by blast
  from 1(2) have d1: "dinv rnd st1" and m1: "minv rnd du st1" by (simp_all add: tables_inv_def)
  from standProbs_spec [OF d1 assms] obtain st2 where
    2: "standProbs rnd du hs st1 = Some (spec_standOutcome rnd du hs, st2)" "dinv rnd st2"
      "frame (sacc du hs) st1 st2"
    by blast
  have i2: "tables_inv rnd du st2"
    using 2(2) m1 minv_cong [OF frame_memoAt [OF 2(3)]] by (simp add: tables_inv_def)
  from hit_loop_spec [OF i2 assms] obtain acc st3 where
    3: "loopM (opt_step rnd du hs) [1..MAX_CARD] (0, 0) st2 = Some (acc, st3)"
      "(fdiv rnd (fst acc) 10, fdiv rnd (snd acc) 10) = spec_hit rnd du hs"
      "tframe (oacc du hs) st2 st3"
    by blast
  from 3(2) have h: "fdiv rnd (fst acc) 10 = fst (spec_hit rnd du hs)"
      "fdiv rnd (snd acc) 10 = snd (spec_hit rnd du hs)"
    by (metis fst_conv, metis snd_conv)
  have "set (trace st3) \<subseteq> oacc du hs \<union> sacc du hs"
    using 1(3) 2(3) 3(3) by (auto simp: tframe_def frame_def trace_init)
  moreover have "computeOptions_traced rnd hs du = Some (spec_report rnd hs du, trace st3)"
    using assms 1(1) 2(1) 3(1) h by (simp add: computeOptions_traced_unfold spec_report_def)
  ultimately show ?thesis by blast
qed

section \<open>Roundings\<close>

subsection \<open>Monotone rounding\<close>

text \<open>
  A rounding that is monotone and keeps 0 never turns a non-negative number negative: no
  sum or mean of non-negative numbers is negative.
\<close>

lemma rnd_nonneg: "mono rnd \<Longrightarrow> rnd 0 = 0 \<Longrightarrow> 0 \<le> x \<Longrightarrow> 0 \<le> rnd x"
  by (metis monoD)

lemma foldl_fadd_nonneg:
  assumes "mono rnd" "rnd 0 = 0" "\<forall>x \<in> set xs. 0 \<le> x" "0 \<le> a"
  shows "0 \<le> foldl (fadd rnd) a xs"
  using assms(3,4)
proof (induction xs arbitrary: a)
  case Nil
  then show ?case by simp
next
  case (Cons x xs)
  have "0 \<le> fadd rnd a x"
    unfolding fadd_def using Cons.prems by (intro rnd_nonneg [OF assms(1,2)]) simp
  with Cons show ?case by simp
qed

lemma fmean10_nonneg:
  assumes "mono rnd" "rnd 0 = 0" "\<forall>x \<in> set xs. 0 \<le> x"
  shows "0 \<le> fmean10 rnd xs"
  unfolding fmean10_def fdiv_def fsum_def
  using foldl_fadd_nonneg [OF assms, of 0] by (intro rnd_nonneg [OF assms(1,2)]) simp

lemma foldl_fadd_zero:
  assumes "rnd 0 = 0" "\<forall>x \<in> set xs. x = 0"
  shows "foldl (fadd rnd) 0 xs = 0"
  using assms(2) by (induction xs) (simp_all add: fadd_def assms(1))

lemma fmean10_zero:
  assumes "rnd 0 = 0" "\<forall>x \<in> set xs. x = 0"
  shows "fmean10 rnd xs = 0"
  by (simp add: fmean10_def fdiv_def fsum_def foldl_fadd_zero [of rnd xs] assms)

lemma spec_dealerOutcome_nonneg:
  "mono rnd \<Longrightarrow> rnd 0 = 0 \<Longrightarrow>
   0 \<le> fst (spec_dealerOutcome rnd s pt) \<and> 0 \<le> fst (snd (spec_dealerOutcome rnd s pt)) \<and>
     0 \<le> snd (snd (spec_dealerOutcome rnd s pt))"
proof (induction rnd s pt rule: spec_dealerOutcome.induct)
  case (1 rnd s pt)
  show ?case
  proof (cases "17 \<le> s")
    case True
    then show ?thesis by (subst (1 2 3) spec_dealerOutcome.simps) simp
  next
    case False
    have "0 \<le> fmean10 rnd (map (\<lambda>v. fst (spec_dealerOutcome rnd (s + v) pt)) [1..10])"
      "0 \<le> fmean10 rnd (map (\<lambda>v. fst (snd (spec_dealerOutcome rnd (s + v) pt))) [1..10])"
      "0 \<le> fmean10 rnd (map (\<lambda>v. snd (snd (spec_dealerOutcome rnd (s + v) pt))) [1..10])"
      using 1 False by (auto intro!: fmean10_nonneg)
    with False show ?thesis by (subst (1 2 3) spec_dealerOutcome.simps) simp
  qed
qed

lemma spec_standOutcome_win_nonneg:
  assumes "mono rnd" "rnd 0 = 0"
  shows "0 \<le> fst (spec_standOutcome rnd du pt)"
proof -
  have "0 \<le> (case spec_dealerOutcome rnd (du + h) pt of (b, l, e) \<Rightarrow> fadd rnd b l)" for h
    using spec_dealerOutcome_nonneg [OF assms, of "du + h" pt]
    by (auto simp: fadd_def split: prod.splits intro!: rnd_nonneg [OF assms])
  then show ?thesis
    by (auto simp: spec_standOutcome_def intro!: fmean10_nonneg [OF assms])
qed

lemma spec_hit_21:
  assumes "rnd 0 = 0"
  shows "fst (spec_hit rnd du 21) = 0"
  by (auto simp: spec_hit_def spec_optimal_unfold intro!: fmean10_zero [where rnd = rnd, OF assms])

lemma mono_exact: "mono exact"
  by (simp add: mono_def exact_def)

subsection \<open>Exact arithmetic\<close>

lemma fadd_exact [simp]: "fadd exact a b = a + b"
  by (simp add: fadd_def exact_def)

lemma fsub_exact [simp]: "fsub exact a b = a - b"
  by (simp add: fsub_def exact_def)

lemma fdiv_exact [simp]: "fdiv exact a b = a / b"
  by (simp add: fdiv_def exact_def)

lemma foldl_plus_sum_list: "foldl (\<lambda>a x. a + x) a xs = a + sum_list xs" for a :: rat
  by (induction xs arbitrary: a) (simp_all add: add.assoc)

lemma fsum_exact: "fsum exact xs = sum_list xs"
proof -
  have "fadd exact = (\<lambda>a x. a + x)" by (simp add: fun_eq_iff)
  then show ?thesis by (simp add: fsum_def foldl_plus_sum_list)
qed

lemma fmean10_exact: "fmean10 exact xs = sum_list xs / 10"
  by (simp add: fmean10_def fsum_exact)








subsection \<open>binary64 is a rounding to nearest\<close>

text \<open>
  \<open>ilog2\<close> finds the binade of its argument, so \<open>binary64 x\<close> is a multiple of
  \<open>pow2 (ilog2 x - 52)\<close> inside the closed binade of \<open>x\<close> and at most half that unit away
  from \<open>x\<close>; \<open>binary64\<close> is monotone, odd and keeps 0.
\<close>

lemma pow2_powi: "pow2 e = 2 powi e"
  by (simp add: pow2_def power_int_def inverse_eq_divide power_one_over)

lemma pow2_pos [simp]: "0 < pow2 e"
  by (simp add: pow2_powi)

lemma pow2_add: "pow2 (a + b) = pow2 a * pow2 b"
  by (simp add: pow2_powi power_int_add)

lemma pow2_Suc: "pow2 (e + 1) = 2 * pow2 e"
  by (simp add: pow2_add) (simp add: pow2_def)

lemma pow2_mono: "a \<le> b \<Longrightarrow> pow2 a \<le> pow2 b"
  by (simp add: pow2_powi power_int_increasing)

lemma pow2_nat: "0 \<le> e \<Longrightarrow> pow2 e = 2 ^ nat e"
  by (simp add: pow2_def)

lemma bitlen_nat_bounds:
  "0 < n \<Longrightarrow> 2 ^ (bitlen_nat n - 1) \<le> n \<and> n < 2 ^ bitlen_nat n"
proof (induction n rule: bitlen_nat.induct)
  case (1 n)
  show ?case
  proof (cases "n div 2 = 0")
    case True
    with 1(2) have "n = 1" by (cases n) auto
    then show ?thesis by (simp add: bitlen_nat.simps)
  next
    case False
    then have pos: "0 < n div 2" by simp
    from 1(1) [OF _ pos] 1(2)
    have ih: "2 ^ (bitlen_nat (n div 2) - 1) \<le> n div 2" "n div 2 < 2 ^ bitlen_nat (n div 2)"
      by auto
    have k: "0 < bitlen_nat (n div 2)"
      using pos by (subst bitlen_nat.simps) simp
    have b: "bitlen_nat n = Suc (bitlen_nat (n div 2))"
      using 1(2) by (subst bitlen_nat.simps) simp
    have "(2::nat) ^ bitlen_nat (n div 2) = 2 * 2 ^ (bitlen_nat (n div 2) - 1)"
      using k by (cases "bitlen_nat (n div 2)") auto
    with ih(1) have "2 ^ bitlen_nat (n div 2) \<le> 2 * (n div 2)" by simp
    also have "\<dots> \<le> n" by simp
    finally have lo: "2 ^ bitlen_nat (n div 2) \<le> n" .
    from ih(2) have "n div 2 + 1 \<le> 2 ^ bitlen_nat (n div 2)" by simp
    then have "2 * (n div 2) + 2 \<le> 2 * 2 ^ bitlen_nat (n div 2)" by simp
    moreover have "n < 2 * (n div 2) + 2" by presburger
    ultimately have hi: "n < 2 * 2 ^ bitlen_nat (n div 2)" by linarith
    from lo hi b show ?thesis by simp
  qed
qed

lemma bitlen_nat_pos: "0 < n \<Longrightarrow> 0 < bitlen_nat n"
  by (subst bitlen_nat.simps) simp

lemma floor_nat_bounds:
  assumes "1 \<le> (y :: rat)"
  shows "\<exists>n k. nat \<lfloor>y\<rfloor> = n \<and> bitlen_nat n = Suc k \<and> 2 ^ k \<le> y \<and> y < 2 ^ Suc k"
proof -
  define n where "n = nat \<lfloor>y\<rfloor>"
  have fl: "1 \<le> \<lfloor>y\<rfloor>" using assms by simp
  then have n0: "0 < n" by (simp add: n_def)
  have nf: "int n = \<lfloor>y\<rfloor>" using fl by (simp add: n_def)
  have "rat_of_int \<lfloor>y\<rfloor> \<le> y" "y < rat_of_int \<lfloor>y\<rfloor> + 1" by linarith+
  then have n: "rat_of_nat n \<le> y" "y < rat_of_nat n + 1"
    by (simp_all add: nf [symmetric])
  obtain k where k: "bitlen_nat n = Suc k"
    using bitlen_nat_pos [OF n0] by (cases "bitlen_nat n") auto
  from bitlen_nat_bounds [OF n0] have b: "2 ^ k \<le> n" "n < 2 ^ Suc k"
    by (simp_all add: k)
  have "(2 :: rat) ^ k = rat_of_nat (2 ^ k)" by simp
  also have "\<dots> \<le> rat_of_nat n" using b(1) by (simp only: of_nat_le_iff)
  also note n(1)
  finally have lo: "2 ^ k \<le> y" .
  have "n + 1 \<le> 2 ^ Suc k" using b(2) by simp
  then have "rat_of_nat (n + 1) \<le> rat_of_nat (2 ^ Suc k)" by (simp only: of_nat_le_iff)
  also have "\<dots> = (2 :: rat) ^ Suc k" by simp
  finally have "rat_of_nat n + 1 \<le> 2 ^ Suc k" by simp
  with n(2) have hi: "y < 2 ^ Suc k" by simp
  from k lo hi show ?thesis by (auto simp: n_def)
qed

lemma ilog2_bounds:
  assumes "0 < x"
  shows "pow2 (ilog2 x) \<le> x \<and> x < pow2 (ilog2 x + 1)"
proof (cases "1 \<le> x")
  case True
  from floor_nat_bounds [OF True] obtain k where
    k: "bitlen_nat (nat \<lfloor>x\<rfloor>) = Suc k" "2 ^ k \<le> x" "x < 2 ^ Suc k" by blast
  have e: "ilog2 x = int k"
    using True by (simp add: ilog2_def k(1))
  have "pow2 (int k) = 2 ^ k" by (simp add: pow2_def)
  with k(2,3) show ?thesis by (simp add: e pow2_Suc)
next
  case False
  define y where "y = 1 / x"
  have y: "1 \<le> y" "0 < y" using assms False by (auto simp: y_def)
  from floor_nat_bounds [OF y(1)] obtain k where
    k: "bitlen_nat (nat \<lfloor>y\<rfloor>) = Suc k" "2 ^ k \<le> y" "y < 2 ^ Suc k" by blast
  have x: "x = 1 / y" using assms by (simp add: y_def)
  have kk: "int (bitlen_nat (nat \<lfloor>y\<rfloor>)) - 1 = int k"
    by (simp add: k(1))
  have il: "ilog2 x = (if y = 2 ^ k then - int k else - (int k + 1))"
    unfolding ilog2_def Let_def y_def [symmetric] kk using False by simp
  show ?thesis
  proof (cases "y = 2 ^ k")
    case True
    then have e: "ilog2 x = - int k"
      by (simp add: il)
    have p: "pow2 (- int k) = x" using True x by (simp add: pow2_def)
    have "pow2 (ilog2 x + 1) = 2 * x" unfolding e pow2_Suc p ..
    with p assms show ?thesis by (simp add: e)
  next
    case ne: False
    then have e: "ilog2 x = - (int k + 1)"
      by (simp add: il)
    have a: "pow2 (ilog2 x) = 1 / 2 ^ Suc k"
      unfolding e by (simp add: pow2_def nat_add_distrib)
    have b: "pow2 (ilog2 x + 1) = 1 / 2 ^ k"
      unfolding e by (simp add: pow2_def)
    have "1 / 2 ^ Suc k < x" using k(3) y(2) unfolding x by (simp add: field_simps)
    moreover have "x < 1 / 2 ^ k" using k(2) ne y(2) unfolding x by (simp add: field_simps)
    ultimately show ?thesis unfolding a b by simp
  qed
qed

lemma round_half_even_floor:
  "\<lfloor>q\<rfloor> \<le> round_half_even q \<and> round_half_even q \<le> \<lfloor>q\<rfloor> + 1"
  by (simp add: round_half_even_def Let_def)

lemma round_half_even_nearest: "\<bar>rat_of_int (round_half_even q) - q\<bar> \<le> 1 / 2"
proof -
  have "rat_of_int \<lfloor>q\<rfloor> \<le> q" "q < rat_of_int \<lfloor>q\<rfloor> + 1" by linarith+
  then show ?thesis by (auto simp: round_half_even_def Let_def)
qed

lemma round_half_even_mono:
  assumes "p \<le> q"
  shows "round_half_even p \<le> round_half_even q"
proof (cases "\<lfloor>p\<rfloor> = \<lfloor>q\<rfloor>")
  case True
  with assms show ?thesis by (auto simp: round_half_even_def Let_def)
next
  case False
  with assms have "\<lfloor>p\<rfloor> < \<lfloor>q\<rfloor>" using floor_mono [OF assms] by simp
  with round_half_even_floor [of p] round_half_even_floor [of q] show ?thesis by linarith
qed

lemma round_half_even_int: "round_half_even (rat_of_int n) = n"
  by (simp add: round_half_even_def)

lemma binary64_pos_eq:
  "0 < x \<Longrightarrow> binary64 x = rat_of_int (round_half_even (x / pow2 (ilog2 x - 52))) * pow2 (ilog2 x - 52)"
  by (simp add: binary64_def Let_def)

lemma binary64_range:
  assumes "0 < x"
  shows "pow2 (ilog2 x) \<le> binary64 x \<and> binary64 x \<le> pow2 (ilog2 x + 1)"
proof -
  define e where "e = ilog2 x"
  define u where "u = pow2 (e - 52)"
  have u: "0 < u" by (simp add: u_def)
  have p52: "pow2 e = 2 ^ 52 * u"
    using pow2_add [of 52 "e - 52"] by (simp add: u_def pow2_def)
  have p53: "pow2 (e + 1) = 2 ^ 53 * u"
    by (simp add: pow2_Suc p52)
  from ilog2_bounds [OF assms] have "2 ^ 52 * u \<le> x" "x < 2 ^ 53 * u"
    by (simp_all add: e_def [symmetric] p52 p53)
  then have q: "rat_of_int (2 ^ 52) \<le> x / u" "x / u \<le> rat_of_int (2 ^ 53)"
    using u by (simp_all add: field_simps)
  have "2 ^ 52 \<le> round_half_even (x / u)"
    using round_half_even_mono [OF q(1)] by (simp only: round_half_even_int)
  then have "rat_of_int (2 ^ 52) \<le> rat_of_int (round_half_even (x / u))"
    by (simp only: of_int_le_iff)
  then have lo: "2 ^ 52 * u \<le> rat_of_int (round_half_even (x / u)) * u"
    using u by simp
  have "round_half_even (x / u) \<le> 2 ^ 53"
    using round_half_even_mono [OF q(2)] by (simp only: round_half_even_int)
  then have "rat_of_int (round_half_even (x / u)) \<le> rat_of_int (2 ^ 53)"
    by (simp only: of_int_le_iff)
  then have hi: "rat_of_int (round_half_even (x / u)) * u \<le> 2 ^ 53 * u"
    using u by simp
  show ?thesis
    using lo hi
    by (simp add: binary64_pos_eq [OF assms] e_def [symmetric] u_def [symmetric] p52 p53)
qed

lemma binary64_error:
  assumes "0 < x"
  shows "\<bar>binary64 x - x\<bar> \<le> pow2 (ilog2 x - 53)"
proof -
  define u where "u = pow2 (ilog2 x - 52)"
  have u: "0 < u" by (simp add: u_def)
  have h: "pow2 (ilog2 x - 53) = u / 2"
    using pow2_Suc [of "ilog2 x - 53"] by (simp add: u_def)
  have "\<bar>rat_of_int (round_half_even (x / u)) - x / u\<bar> * u \<le> 1 / 2 * u"
    using round_half_even_nearest [of "x / u"] u by (intro mult_right_mono) auto
  also have "\<bar>rat_of_int (round_half_even (x / u)) - x / u\<bar> * u =
      \<bar>rat_of_int (round_half_even (x / u)) * u - x\<bar>"
  proof -
    have "\<bar>rat_of_int (round_half_even (x / u)) - x / u\<bar> * u =
        \<bar>(rat_of_int (round_half_even (x / u)) - x / u) * u\<bar>"
      using u by (simp add: abs_mult)
    also have "(rat_of_int (round_half_even (x / u)) - x / u) * u =
        rat_of_int (round_half_even (x / u)) * u - x"
      using u by (simp add: left_diff_distrib)
    finally show ?thesis .
  qed
  finally show ?thesis
    by (simp add: binary64_pos_eq [OF assms] u_def [symmetric] h)
qed

lemma binary64_mono_pos:
  assumes "0 < x" "x \<le> y"
  shows "binary64 x \<le> binary64 y"
proof -
  have y: "0 < y" using assms by simp
  have "pow2 (ilog2 x) \<le> x" "y < pow2 (ilog2 y + 1)"
    using ilog2_bounds [OF assms(1)] ilog2_bounds [OF y] by simp_all
  with assms(2) have "pow2 (ilog2 x) < pow2 (ilog2 y + 1)" by simp
  then have le: "ilog2 x \<le> ilog2 y"
    using pow2_mono [of "ilog2 y + 1" "ilog2 x"] by (cases "ilog2 x \<le> ilog2 y") auto
  show ?thesis
  proof (cases "ilog2 x = ilog2 y")
    case True
    have "x / pow2 (ilog2 y - 52) \<le> y / pow2 (ilog2 y - 52)"
      using assms(2) by (intro divide_right_mono) (simp_all add: less_imp_le)
    from round_half_even_mono [OF this] show ?thesis
      by (simp add: binary64_pos_eq [OF assms(1)] binary64_pos_eq [OF y] True)
  next
    case False
    with le have "ilog2 x + 1 \<le> ilog2 y" by simp
    from pow2_mono [OF this] binary64_range [OF assms(1)] binary64_range [OF y]
    show ?thesis by simp
  qed
qed

lemma binary64_zero [simp]: "binary64 0 = 0"
  by (simp add: binary64_def)

lemma binary64_minus: "binary64 (- x) = - binary64 x"
  by (simp add: binary64_def Let_def)

lemma binary64_nonneg: "0 \<le> x \<Longrightarrow> 0 \<le> binary64 x"
  using binary64_range [of x] pow2_pos [of "ilog2 x"] by (cases "x = 0") (auto simp: order.strict_iff_order)

lemma mono_binary64: "mono binary64"
proof (rule monoI)
  fix x y :: rat
  assume xy: "x \<le> y"
  consider "0 < x" | "x \<le> 0" "0 \<le> y" | "y < 0" using xy by linarith
  then show "binary64 x \<le> binary64 y"
  proof cases
    case 1
    then show ?thesis using xy by (rule binary64_mono_pos)
  next
    case 2
    have "0 \<le> binary64 (- x)" using 2(1) by (intro binary64_nonneg) simp
    then have "binary64 x \<le> 0" using binary64_minus [of x] by simp
    also have "0 \<le> binary64 y" using 2(2) by (rule binary64_nonneg)
    finally show ?thesis .
  next
    case 3
    then have "binary64 (- y) \<le> binary64 (- x)"
      using xy by (intro binary64_mono_pos) auto
    then show ?thesis by (simp add: binary64_minus)
  qed
qed

subsection \<open>Evaluating binary64\<close>







text \<open>
  The dealer's outcome distribution against a player total of 21 in binary64 arithmetic,
  from the terminal totals down to a start of 11, and the stand evaluation of 21 against
  an upcard of 10.
\<close>

lemma dealer_terminal_21:
  "spec_dealerOutcome rnd 17 21 = (0, 1, 0)" "spec_dealerOutcome rnd 18 21 = (0, 1, 0)"
  "spec_dealerOutcome rnd 19 21 = (0, 1, 0)" "spec_dealerOutcome rnd 20 21 = (0, 1, 0)"
  "spec_dealerOutcome rnd 21 21 = (0, 0, 1)"
  by (simp_all add: spec_dealerOutcome.simps)

lemma dealer_bust: "21 < s \<Longrightarrow> spec_dealerOutcome rnd s pt = (1, 0, 0)"
  by (simp add: spec_dealerOutcome.simps)








text \<open>
  The same in exact arithmetic, and the report for a hand of 21 against an upcard of 10 in
  both arithmetics: in exact arithmetic the stand loss is 0, in binary64 it is negative.
\<close>

lemma dealer_16_21_exact: "spec_dealerOutcome exact 16 21 = (1 / 2, 2 / 5, 1 / 10)"
  by (subst spec_dealerOutcome.simps) (simp add: upto_rec1 fmean10_exact dealer_terminal_21 dealer_bust)

lemma dealer_15_21_exact: "spec_dealerOutcome exact 15 21 = (9 / 20, 11 / 25, 11 / 100)"
  by (subst spec_dealerOutcome.simps)
    (simp add: upto_rec1 fmean10_exact dealer_terminal_21 dealer_bust dealer_16_21_exact)

lemma dealer_14_21_exact: "spec_dealerOutcome exact 14 21 = (79 / 200, 121 / 250, 121 / 1000)"
  by (subst spec_dealerOutcome.simps)
    (simp add: upto_rec1 fmean10_exact dealer_terminal_21 dealer_bust dealer_16_21_exact
      dealer_15_21_exact)

lemma dealer_13_21_exact: "spec_dealerOutcome exact 13 21 = (669 / 2000, 1331 / 2500, 1331 / 10000)"
  by (subst spec_dealerOutcome.simps)
    (simp add: upto_rec1 fmean10_exact dealer_terminal_21 dealer_bust dealer_16_21_exact
      dealer_15_21_exact dealer_14_21_exact)

lemma dealer_12_21_exact:
  "spec_dealerOutcome exact 12 21 = (5359 / 20000, 14641 / 25000, 14641 / 100000)"
  by (subst spec_dealerOutcome.simps)
    (simp add: upto_rec1 fmean10_exact dealer_terminal_21 dealer_bust dealer_16_21_exact
      dealer_15_21_exact dealer_14_21_exact dealer_13_21_exact)

lemma dealer_11_21_exact:
  "spec_dealerOutcome exact 11 21 = (38949 / 200000, 161051 / 250000, 161051 / 1000000)"
  by (subst spec_dealerOutcome.simps)
    (simp add: upto_rec1 fmean10_exact dealer_terminal_21 dealer_bust dealer_16_21_exact
      dealer_15_21_exact dealer_14_21_exact dealer_13_21_exact dealer_12_21_exact)

lemma stand_10_21_exact: "spec_standOutcome exact 10 21 = (9228439 / 10000000, 0)"
  by (simp add: upto_rec1 spec_standOutcome_def fmean10_exact dealer_terminal_21
      dealer_16_21_exact dealer_15_21_exact dealer_14_21_exact dealer_13_21_exact
      dealer_12_21_exact dealer_11_21_exact)

lemma hit_21_exact: "spec_hit exact du 21 = (0, 1)"
  by (simp add: spec_hit_def spec_optimal_unfold upto_rec1 fmean10_exact)


lemma report_21_10_exact:
  "computeOptions exact 21 10 =
     Some \<lparr>standWin = 9228439 / 10000000, standLoss = 0, hitWin = 0, hitLoss = 1,
           optWin = 9228439 / 10000000, optLoss = 0, bestAction = ''stand''\<rparr>"
proof -
  have "spec_report exact 21 10 =
      \<lparr>standWin = 9228439 / 10000000, standLoss = 0, hitWin = 0, hitLoss = 1,
       optWin = 9228439 / 10000000, optLoss = 0, bestAction = ''stand''\<rparr>"
    by (simp add: spec_report_def spec_optimal_unfold stand_10_21_exact hit_21_exact label_def)
  with computeOptions_traced_spec [of 10 21 exact] show ?thesis
    by (auto simp: computeOptions_def)
qed


section \<open>The identities of the recursion, as the code computes them\<close>



lemma oacc_access_ok:
  assumes "4 \<le> hs" "hs \<le> 21" "1 \<le> du" "du \<le> 10" "a \<in> oacc du hs \<union> sacc du hs"
  shows "access_ok a"
  using assms by (auto simp: oacc_def sacc_def access_ok_def)

lemma computeOptions_negative_hand_score:
  assumes "hand_score < 0" "1 \<le> dealer_upcard" "dealer_upcard \<le> 10"
  shows "computeOptions rnd hand_score dealer_upcard = None"
  using assms
  by (simp add: computeOptions_def computeOptions_traced_unfold optimal_unfold rd1_def in1_def)

section \<open>Statements about the engine\<close>

subsection \<open>The optimal policy picks the higher win probability\<close>

text \<open>
  C1. For every player total from 4 to 21, every dealer upcard from 1 to 10 and every
  rounding: \<open>optimal\<close> returns the pair of \<open>standProbs\<close> when the stand win probability
  is at least the hit win probability (a tie stands), and the hit pair otherwise, where
  the hit pair is the mean over the ten cards of \<open>optimal\<close> at the next total. So the win
  probability it returns is at least that of either action.
\<close>

theorem optimal_picks_higher_win:
  assumes "4 \<le> playerTotal" "playerTotal \<le> 21" "1 \<le> dealerUpcard" "dealerUpcard \<le> 10"
  shows "\<exists>sw sl hw hl ow ol.
      standOutcome rnd dealerUpcard playerTotal = Some (sw, sl) \<and>
      hitOutcome rnd dealerUpcard playerTotal = Some (hw, hl) \<and>
      optimalOutcome rnd dealerUpcard playerTotal = Some (ow, ol) \<and>
      (ow, ol) = (if sw \<ge> hw then (sw, sl) else (hw, hl)) \<and>
      sw \<le> ow \<and> hw \<le> ow"
proof -
  obtain sw sl where s: "spec_standOutcome rnd dealerUpcard playerTotal = (sw, sl)"
    by (cases "spec_standOutcome rnd dealerUpcard playerTotal")
  obtain hw hl where h: "spec_hit rnd dealerUpcard playerTotal = (hw, hl)"
    by (cases "spec_hit rnd dealerUpcard playerTotal")
  have o: "spec_optimal rnd dealerUpcard playerTotal = (if sw \<ge> hw then (sw, sl) else (hw, hl))"
    using assms s h by (simp add: spec_optimal_unfold)
  have "standOutcome rnd dealerUpcard playerTotal = Some (sw, sl)"
    using assms s by (simp add: standOutcome_spec)
  moreover have "hitOutcome rnd dealerUpcard playerTotal = Some (hw, hl)"
    using assms h by (simp add: hitOutcome_spec)
  moreover have "optimalOutcome rnd dealerUpcard playerTotal = Some (if sw \<ge> hw then (sw, sl) else (hw, hl))"
    using assms o by (simp add: optimalOutcome_spec)
  ultimately show ?thesis by (cases "hw \<le> sw") auto
qed

theorem optimal_picks_higher_win_witness:
  "\<exists>sw sl hw hl ow ol.
      standOutcome exact 6 12 = Some (sw, sl) \<and>
      hitOutcome exact 6 12 = Some (hw, hl) \<and>
      optimalOutcome exact 6 12 = Some (ow, ol) \<and>
      (ow, ol) = (if sw \<ge> hw then (sw, sl) else (hw, hl)) \<and>
      sw \<le> ow \<and> hw \<le> ow"
  using optimal_picks_higher_win [of 12 6 exact] by simp

subsection \<open>The dealer's outcome below 17 is the mean over the next card\<close>




subsection \<open>Standing is the mean over the hole card\<close>




subsection \<open>Dealer upcard out of range\<close>

text \<open>
  C4. For every hand score and every rounding, a dealer upcard below 1 or above 10 makes
  \<open>computeOptions\<close> return (it does not fail) the value-initialised report: the six
  probabilities are 0 and the best-action string is empty. No table is accessed: the
  trace is empty.
\<close>

theorem computeOptions_invalid_upcard:
  assumes "dealer_upcard < 1 \<or> 10 < dealer_upcard"
  shows "computeOptions rnd hand_score dealer_upcard =
           Some \<lparr>standWin = 0, standLoss = 0, hitWin = 0, hitLoss = 0, optWin = 0, optLoss = 0,
                 bestAction = []\<rparr>
       \<and> map_option snd (computeOptions_traced rnd hand_score dealer_upcard) = Some []"
  using assms by (auto simp: computeOptions_def computeOptions_traced_def)

theorem computeOptions_invalid_upcard_witness:
  "computeOptions exact 12 0 =
     Some \<lparr>standWin = 0, standLoss = 0, hitWin = 0, hitLoss = 0, optWin = 0, optLoss = 0,
           bestAction = []\<rparr>
   \<and> computeOptions exact 12 11 =
     Some \<lparr>standWin = 0, standLoss = 0, hitWin = 0, hitLoss = 0, optWin = 0, optLoss = 0,
           bestAction = []\<rparr>"
  using computeOptions_invalid_upcard [of 0 exact 12] computeOptions_invalid_upcard [of 11 exact 12]
  by simp

subsection \<open>Terminal dealer totals\<close>

text \<open>
  C5, as stated: for a dealer total from 17 to 21, bust is 0 and exactly one of less and
  equal is 1. This fails whenever the dealer's total exceeds the player's: at dealer total
  20 against player total 18 both are 0.
\<close>

theorem dealer_terminal_counterexample:
  "dealerOutcome exact 20 18 = Some (0, 0, 0)"
  by (simp add: dealerOutcome_spec spec_dealerOutcome.simps)

text \<open>
  C5, amended: for every dealer total from 17 to 21, every player total from 0 to 21 and
  every rounding, the outcome is terminal: bust is 0, less is 1 if the dealer total is
  below the player total and 0 otherwise, equal is 1 if the two totals are equal and 0
  otherwise. So at most one of less and equal is 1, and both are 0 exactly when the
  dealer total is above the player total.
\<close>

theorem dealer_terminal_outcome:
  assumes "17 \<le> dealerTotal" "dealerTotal \<le> 21" "0 \<le> playerTotal" "playerTotal \<le> 21"
  shows "dealerOutcome rnd dealerTotal playerTotal =
           Some (0, if dealerTotal < playerTotal then 1 else 0,
                    if dealerTotal = playerTotal then 1 else 0)"
  using assms by (simp add: dealerOutcome_spec spec_dealerOutcome.simps)

theorem dealer_terminal_outcome_witness:
  "dealerOutcome exact 17 21 = Some (0, 1, 0) \<and> dealerOutcome exact 21 21 = Some (0, 0, 1)
   \<and> dealerOutcome exact 19 0 = Some (0, 0, 0)"
  using dealer_terminal_outcome [of 17 21 exact] dealer_terminal_outcome [of 21 21 exact]
    dealer_terminal_outcome [of 19 0 exact]
  by simp

subsection \<open>Totals above 21\<close>

text \<open>
  C6. For every player total above 21, every dealer upcard, every rounding and whatever
  the tables hold, \<open>standProbs\<close> and \<open>optimal\<close> return win 0 and loss 1 and leave the
  tables as they are; so do \<open>standOutcome\<close> and \<open>optimalOutcome\<close>.
\<close>

theorem bust_total_absorbing:
  assumes "21 < s"
  shows "standProbs rnd du s st = Some ((0, 1), st) \<and> optimal rnd du s st = Some ((0, 1), st)
       \<and> standOutcome rnd du s = Some (0, 1) \<and> optimalOutcome rnd du s = Some (0, 1)"
  using assms by (simp add: standProbs_def optimal.simps standOutcome_def optimalOutcome_def)

theorem bust_total_absorbing_witness:
  "standProbs exact 10 22 init_tables = Some ((0, 1), init_tables)
   \<and> optimal exact 10 22 init_tables = Some ((0, 1), init_tables)
   \<and> standOutcome exact 10 22 = Some (0, 1) \<and> optimalOutcome exact 10 22 = Some (0, 1)"
  using bust_total_absorbing [of 22 exact 10 init_tables] by simp

subsection \<open>The optimal policy stands on 21\<close>

text \<open>
  C7. For every dealer upcard from 1 to 10 and every rounding that is monotone and keeps
  0, \<open>optimal\<close> at 21 returns the pair that \<open>standProbs\<close> returns at 21: every next total
  is above 21, so the hit win probability is 0, and the stand win probability is not
  negative. Both \<open>exact\<close> and \<open>binary64\<close> are such roundings (lemmas \<open>mono_exact\<close> and
  \<open>mono_binary64\<close>).
\<close>

theorem optimal_21_stands:
  assumes "mono rnd" "rnd 0 = 0" "1 \<le> dealerUpcard" "dealerUpcard \<le> 10"
  shows "\<exists>r. standOutcome rnd dealerUpcard 21 = Some r \<and> optimalOutcome rnd dealerUpcard 21 = Some r"
proof -
  have "fst (spec_hit rnd dealerUpcard 21) \<le> fst (spec_standOutcome rnd dealerUpcard 21)"
    using spec_hit_21 [where rnd = rnd, OF assms(2)] spec_standOutcome_win_nonneg [OF assms(1,2)] by simp
  then have "spec_optimal rnd dealerUpcard 21 = spec_standOutcome rnd dealerUpcard 21"
    by (simp add: spec_optimal_unfold)
  with assms(3,4) show ?thesis
    by (simp add: standOutcome_spec optimalOutcome_spec)
qed

theorem optimal_21_stands_witness:
  "mono binary64 \<and> binary64 0 = 0 \<and>
   (\<exists>r. standOutcome binary64 10 21 = Some r \<and> optimalOutcome binary64 10 21 = Some r) \<and>
   mono exact \<and> exact 0 = 0 \<and>
   (\<exists>r. standOutcome exact 1 21 = Some r \<and> optimalOutcome exact 1 21 = Some r)"
  using optimal_21_stands [of binary64 10] optimal_21_stands [of exact 1]
  by (simp add: mono_binary64 mono_exact exact_def)

subsection \<open>The best-action label\<close>

text \<open>
  C8. For every hand score from 4 to 21, every dealer upcard from 1 to 10 and every
  rounding, \<open>computeOptions\<close> returns a report whose stand win is that of \<open>standOutcome\<close>,
  whose hit win is that of \<open>hitOutcome\<close> (the mean over the ten cards of \<open>optimal\<close> at the
  next total), and whose label is \<open>stand\<close> exactly when the stand win is greater, \<open>hit\<close>
  exactly when it is smaller and \<open>equal\<close> exactly when the two are equal. The label is a
  function of these two numbers; a tie is labelled \<open>equal\<close>, where \<open>optimal\<close> stands.
\<close>

theorem bestAction_one_ply_label:
  assumes "4 \<le> hand_score" "hand_score \<le> 21" "1 \<le> dealer_upcard" "dealer_upcard \<le> 10"
  shows "\<exists>out sw sl hw hl.
      computeOptions rnd hand_score dealer_upcard = Some out \<and>
      standOutcome rnd dealer_upcard hand_score = Some (sw, sl) \<and>
      hitOutcome rnd dealer_upcard hand_score = Some (hw, hl) \<and>
      standWin out = sw \<and> hitWin out = hw \<and>
      (bestAction out = ''stand'' \<longleftrightarrow> hw < sw) \<and>
      (bestAction out = ''hit'' \<longleftrightarrow> sw < hw) \<and>
      (bestAction out = ''equal'' \<longleftrightarrow> sw = hw)"
proof -
  obtain sw sl where s: "spec_standOutcome rnd dealer_upcard hand_score = (sw, sl)"
    by (cases "spec_standOutcome rnd dealer_upcard hand_score")
  obtain hw hl where h: "spec_hit rnd dealer_upcard hand_score = (hw, hl)"
    by (cases "spec_hit rnd dealer_upcard hand_score")
  from computeOptions_traced_spec [of dealer_upcard hand_score rnd] assms
  have c: "computeOptions rnd hand_score dealer_upcard = Some (spec_report rnd hand_score dealer_upcard)"
    by (auto simp: computeOptions_def)
  have "standOutcome rnd dealer_upcard hand_score = Some (sw, sl)"
    using assms s by (simp add: standOutcome_spec)
  moreover have "hitOutcome rnd dealer_upcard hand_score = Some (hw, hl)"
    using assms h by (simp add: hitOutcome_spec)
  moreover have "standWin (spec_report rnd hand_score dealer_upcard) = sw"
      "hitWin (spec_report rnd hand_score dealer_upcard) = hw"
      "bestAction (spec_report rnd hand_score dealer_upcard) = label sw hw"
    using s h by (simp_all add: spec_report_def)
  moreover have "(label sw hw = ''stand'' \<longleftrightarrow> hw < sw) \<and> (label sw hw = ''hit'' \<longleftrightarrow> sw < hw) \<and>
      (label sw hw = ''equal'' \<longleftrightarrow> sw = hw)"
    by (auto simp: label_def)
  ultimately show ?thesis using c by auto
qed

theorem bestAction_one_ply_label_witness:
  "\<exists>out sw sl hw hl.
      computeOptions exact 20 10 = Some out \<and>
      standOutcome exact 10 20 = Some (sw, sl) \<and>
      hitOutcome exact 10 20 = Some (hw, hl) \<and>
      standWin out = sw \<and> hitWin out = hw \<and>
      (bestAction out = ''stand'' \<longleftrightarrow> hw < sw) \<and>
      (bestAction out = ''hit'' \<longleftrightarrow> sw < hw) \<and>
      (bestAction out = ''equal'' \<longleftrightarrow> sw = hw)"
  using bestAction_one_ply_label [of 20 10 exact] by simp

subsection \<open>Probabilities\<close>




subsection \<open>Every access is inside the tables\<close>

text \<open>
  C10. For every hand score from 4 to 21, every dealer upcard from 1 to 10 and every
  rounding, \<open>computeOptions\<close> returns a report, so no access leaves its vector, and every
  access it makes satisfies \<open>access_ok\<close>: the dealer tables are indexed with a first index
  from 2 to 26 and a second index from 4 to 21, the memo of \<open>optimal\<close> with an index from
  4 to 31. Lemma \<open>computeOptions_negative_hand_score\<close> shows that a negative hand score
  does take the out-of-range branch.
\<close>

theorem computeOptions_accesses_in_bounds:
  assumes "4 \<le> hand_score" "hand_score \<le> 21" "1 \<le> dealer_upcard" "dealer_upcard \<le> 10"
  shows "\<exists>out tr. computeOptions_traced rnd hand_score dealer_upcard = Some (out, tr) \<and>
     (\<forall>a \<in> set tr. access_ok a)"
proof -
  from computeOptions_traced_spec [of dealer_upcard hand_score rnd] assms obtain tr where
    "computeOptions_traced rnd hand_score dealer_upcard = Some (spec_report rnd hand_score dealer_upcard, tr)"
    "set tr \<subseteq> oacc dealer_upcard hand_score \<union> sacc dealer_upcard hand_score"
    by auto
  with oacc_access_ok [OF assms] show ?thesis by blast
qed

theorem computeOptions_accesses_in_bounds_witness:
  "\<exists>out tr. computeOptions_traced exact 4 1 = Some (out, tr) \<and> (\<forall>a \<in> set tr. access_ok a)"
  using computeOptions_accesses_in_bounds [of 4 1 exact] by simp

end
